theory Spec2Isabelle
  imports Main "HOL-Library.AList"
begin

section \<open>The telemetry pipeline of the logger module\<close>

text \<open>
  The logger module keeps its state in module-level variables (\<open>logBuffer\<close>,
  \<open>logBatch\<close>, \<open>batchFlushTimer\<close>, \<open>currentUserId\<close>, \<open>logListeners\<close>) and talks
  to three outside parties: the IndexedDB object store, the Firebase realtime database and
  the console. The embedding passes one record of all of them through every function.
  Whatever the source reads from the outside world (the clock, the page address, whether
  a storage request succeeds) is an explicit argument.
\<close>

subsection \<open>Data\<close>

datatype level = DEBUG | INFO | WARN | ERROR

text \<open>The values that occur in the \<open>data\<close> objects the module itself builds.\<close>

datatype jsval = Null | Str string | Num int | IsoDate int

type_synonym payload = "(string \<times> jsval) list"

record entry =
  timestamp :: int
  sessionId :: string
  level :: level
  category :: string
  message :: string
  data :: payload
  url :: string
  userAgent :: string

text \<open>Everything that can be thrown or rejected inside the module.\<close>

datatype error =
  ListenerError | OpenFailed | AddFailed | PushFailed | GetFailed | RemoveFailed

type_synonym 'a result = "error + 'a"

text \<open>
  A flush that has taken its snapshot and is waiting for a \<open>push\<close> to settle:
  \<open>target\<close> is the user id that went into \<open>logsRef\<close>, \<open>logsToSend\<close> the snapshot
  and \<open>sent\<close> the number of entries whose \<open>push\<close> has resolved so far.
\<close>

record flight =
  target :: string
  logsToSend :: "entry list"
  sent :: nat

datatype console_line = ConsoleLog entry | ConsoleError string

text \<open>
  A retention sweep that is waiting at one of its \<open>await\<close>s. \<open>AwaitGet u\<close>: the
  \<open>get\<close> of \<open>logs/u\<close> is pending. \<open>AwaitRemove u sid rest cutoffTime deletedCount\<close>:
  the \<open>remove\<close> of \<open>logs/u/sid\<close> is pending, \<open>rest\<close> are the sessions of the snapshot
  the loop has not looked at yet.
\<close>

datatype sweep =
    AwaitGet string
  | AwaitRemove string string "(string \<times> entry list) list" int nat

record pipeline =
  logBuffer :: "entry list"
  logBatch :: "entry list"
  batchFlushTimer :: bool
  currentUserId :: "string option"
  logListeners :: "(entry \<Rightarrow> unit result) list"
  localStore :: "entry list"
  remote :: "(string \<times> string \<times> entry) list"
  flights :: "flight list"
  sweeps :: "sweep list"
  console :: "console_line list"

text \<open>
  \<open>remote\<close> lists the records under \<open>logs/{userId}/{sessionId}\<close> in the order they
  were pushed, each with the two path components it was written under. The
  \<open>serverTimestamp\<close> placeholder that \<open>push\<close> adds is filled in by the server and is
  not part of the model.

  The values fixed when the module is loaded:
\<close>

record config =
  IS_PRODUCTION :: bool
  SESSION_ID :: string
  database :: bool

definition MAX_BUFFER_SIZE :: nat where
  "MAX_BUFFER_SIZE = 500"

definition MAX_BATCH_SIZE :: nat where
  "MAX_BATCH_SIZE = 10"

definition LOG_RETENTION_DAYS :: int where
  "LOG_RETENTION_DAYS = 30"

definition LOG_RETENTION_MS :: int where
  "LOG_RETENTION_MS = LOG_RETENTION_DAYS * 24 * 60 * 60 * 1000"

text \<open>
  What one call of \<open>log\<close> reads from its surroundings: \<open>Date.now()\<close>,
  \<open>window.location.href\<close>, \<open>navigator.userAgent\<close>, and how the IndexedDB write goes.
\<close>

datatype local_outcome = LocalOk | LocalOpenFails | LocalAddFails

record emit_env =
  env_now :: int
  env_href :: string
  env_agent :: string
  env_local :: local_outcome

subsection \<open>Exceptions and promises\<close>

definition and_then :: "'a result \<Rightarrow> ('a \<Rightarrow> 'b result) \<Rightarrow> 'b result" where
  "and_then r f = (case r of Inl e \<Rightarrow> Inl e | Inr v \<Rightarrow> f v)"

text \<open>\<open>try { r } catch (error) { h error }\<close>\<close>

definition try_catch :: "'a result \<Rightarrow> (error \<Rightarrow> 'a result) \<Rightarrow> 'a result" where
  "try_catch r h = (case r of Inl e \<Rightarrow> h e | Inr v \<Rightarrow> Inr v)"

text \<open>
  \<open>p.catch(() => {})\<close> on a promise whose effect on the state is \<open>r\<close>: a rejection
  leaves the state \<open>st\<close> the operation started from.
\<close>

definition catch_ignore :: "pipeline result \<Rightarrow> pipeline \<Rightarrow> pipeline result" where
  "catch_ignore r st = (case r of Inl e \<Rightarrow> Inr st | Inr st' \<Rightarrow> Inr st')"

text \<open>\<open>!currentUserId\<close> holds for \<open>null\<close> and for the empty string.\<close>

definition truthy :: "string option \<Rightarrow> bool" where
  "truthy u = (case u of None \<Rightarrow> False | Some s \<Rightarrow> s \<noteq> [])"

subsection \<open>Local cache\<close>

definition initLogDB :: "local_outcome \<Rightarrow> unit result" where
  "initLogDB io = (if io = LocalOpenFails then Inl OpenFailed else Inr ())"

text \<open>The promise around \<open>store.add(entry)\<close>.\<close>

definition store_add :: "local_outcome \<Rightarrow> entry \<Rightarrow> pipeline \<Rightarrow> pipeline result" where
  "store_add io e st =
     (if io = LocalAddFails then Inl AddFailed
      else Inr (st\<lparr>localStore := localStore st @ [e]\<rparr>))"

text \<open>
  \<open>saveLogLocally\<close> awaits \<open>initLogDB\<close> inside its \<open>try\<close>, so a failure to open the
  database is caught and reported on the console. The promise of the \<open>add\<close> request is
  returned without \<open>await\<close>: when it rejects, the rejection leaves the function.
\<close>

definition saveLogLocally :: "local_outcome \<Rightarrow> entry \<Rightarrow> pipeline \<Rightarrow> pipeline result" where
  "saveLogLocally io e st =
     (case initLogDB io of
        Inl err \<Rightarrow> Inr (st\<lparr>console := console st @ [ConsoleError ''Failed to save log locally:'']\<rparr>)
      | Inr u \<Rightarrow> store_add io e st)"

subsection \<open>Remote batch\<close>

text \<open>
  \<open>flushLogBatch\<close> up to its first \<open>await\<close>: the timer is cleared, the guard is
  checked, the queue is copied into \<open>logsToSend\<close> and emptied, \<open>logsRef\<close> is built from
  the user bound at this moment, and the first \<open>push\<close> is issued.
\<close>

definition flushLogBatch :: "config \<Rightarrow> pipeline \<Rightarrow> pipeline" where
  "flushLogBatch cfg st =
     (let st1 = st\<lparr>batchFlushTimer := False\<rparr> in
      if logBatch st1 = [] \<or> \<not> truthy (currentUserId st1) \<or> \<not> database cfg then st1
      else st1\<lparr>logBatch := [],
               flights := flights st1 @
                 [\<lparr>target = the (currentUserId st1), logsToSend = logBatch st1, sent = 0\<rparr>]\<rparr>)"

definition remove_nth :: "nat \<Rightarrow> 'a list \<Rightarrow> 'a list" where
  "remove_nth i xs = take i xs @ drop (Suc i) xs"

text \<open>The awaited \<open>push(logsRef, {...entry, serverTimestamp})\<close> of flight \<open>f\<close>.\<close>

definition await_push :: "config \<Rightarrow> bool \<Rightarrow> flight \<Rightarrow> pipeline \<Rightarrow> pipeline result" where
  "await_push cfg ok f st =
     (if ok then Inr (st\<lparr>remote := remote st @ [(target f, SESSION_ID cfg, logsToSend f ! sent f)]\<rparr>)
      else Inl PushFailed)"

text \<open>
  \<open>flushLogBatch\<close> from the moment the pending \<open>push\<close> of the \<open>i\<close>-th flush in flight
  settles. When it resolved, the record is in the remote store and the loop goes on to
  the next entry, or the flush is over. When it rejected, the \<open>catch\<close> block reports on
  the console and puts \<open>logsToSend\<close> back in front of the live queue.
\<close>

definition flush_resume :: "config \<Rightarrow> nat \<Rightarrow> bool \<Rightarrow> pipeline \<Rightarrow> pipeline result" where
  "flush_resume cfg i ok st =
     (if i < length (flights st) \<and> sent (flights st ! i) < length (logsToSend (flights st ! i)) then
        (let f = flights st ! i in
         try_catch
           (and_then (await_push cfg ok f st) (\<lambda>st1.
              if Suc (sent f) < length (logsToSend f)
              then Inr (st1\<lparr>flights := (flights st1)[i := f\<lparr>sent := Suc (sent f)\<rparr>]\<rparr>)
              else Inr (st1\<lparr>flights := remove_nth i (flights st1)\<rparr>)))
           (\<lambda>err. Inr (st\<lparr>console := console st @ [ConsoleError ''Failed to flush log batch to Firebase:''],
                          logBatch := logsToSend f @ logBatch st,
                          flights := remove_nth i (flights st)\<rparr>)))
      else Inr st)"

text \<open>
  \<open>saveLogToFirebase\<close> awaits \<open>flushLogBatch\<close> when the batch is full, and \<open>log\<close> does
  not wait for \<open>saveLogToFirebase\<close>: within the call of \<open>log\<close> the flush runs up to its
  first \<open>await\<close>, the rest is \<open>flush_resume\<close>.
\<close>

definition saveLogToFirebase :: "config \<Rightarrow> entry \<Rightarrow> pipeline \<Rightarrow> pipeline result" where
  "saveLogToFirebase cfg e st =
     (if \<not> truthy (currentUserId st) \<or> \<not> database cfg then Inr st
      else if IS_PRODUCTION cfg \<and> level e = DEBUG then Inr st
      else
        (let st1 = st\<lparr>logBatch := logBatch st @ [e]\<rparr> in
         if length (logBatch st1) \<ge> MAX_BATCH_SIZE then Inr (flushLogBatch cfg st1)
         else Inr (st1\<lparr>batchFlushTimer := True\<rparr>)))"

subsection \<open>The core logging function\<close>

definition buffer_push :: "entry \<Rightarrow> entry list \<Rightarrow> entry list" where
  "buffer_push e buf =
     (let b = buf @ [e] in if length b > MAX_BUFFER_SIZE then tl b else b)"

text \<open>\<open>logListeners.forEach\<close>, each call in its own \<open>try\<close> with an empty \<open>catch\<close>.\<close>

fun notify :: "(entry \<Rightarrow> unit result) list \<Rightarrow> entry \<Rightarrow> unit result" where
  "notify [] e = Inr ()"
| "notify (l # ls) e = and_then (try_catch (l e) (\<lambda>err. Inr ())) (\<lambda>u. notify ls e)"

definition make_entry :: "config \<Rightarrow> emit_env \<Rightarrow> level \<Rightarrow> string \<Rightarrow> string \<Rightarrow> payload \<Rightarrow> entry" where
  "make_entry cfg io lv cat msg d =
     \<lparr>timestamp = env_now io, sessionId = SESSION_ID cfg, level = lv, category = cat,
      message = msg, data = d, url = env_href io, userAgent = env_agent io\<rparr>"

definition log :: "config \<Rightarrow> emit_env \<Rightarrow> level \<Rightarrow> string \<Rightarrow> string \<Rightarrow> payload \<Rightarrow> pipeline \<Rightarrow> pipeline result" where
  "log cfg io lv cat msg d st =
     (let e = make_entry cfg io lv cat msg d;
          st1 = st\<lparr>logBuffer := buffer_push e (logBuffer st)\<rparr>
      in and_then (notify (logListeners st1) e) (\<lambda>u.
           let st2 = st1\<lparr>console := console st1 @ [ConsoleLog e]\<rparr> in
           and_then (catch_ignore (saveLogLocally (env_local io) e st2) st2) (\<lambda>st3.
             catch_ignore (saveLogToFirebase cfg e st3) st3)))"

text \<open>A sequence of calls of the public \<open>debug\<close>/\<open>info\<close>/\<open>warn\<close>/\<open>error\<close> functions.\<close>

type_synonym emit_call = "emit_env \<times> level \<times> string \<times> string \<times> payload"

definition entry_of :: "config \<Rightarrow> emit_call \<Rightarrow> entry" where
  "entry_of cfg c = (case c of (io, lv, cat, msg, d) \<Rightarrow> make_entry cfg io lv cat msg d)"

fun emits :: "config \<Rightarrow> emit_call list \<Rightarrow> pipeline \<Rightarrow> pipeline result" where
  "emits cfg [] st = Inr st"
| "emits cfg (c # cs) st =
     and_then (case c of (io, lv, cat, msg, d) \<Rightarrow> log cfg io lv cat msg d st) (emits cfg cs)"

subsection \<open>Binding a user\<close>

text \<open>
  \<open>logger.setUserId\<close> assigns \<open>currentUserId\<close> and then logs. The sweep it schedules
  with \<open>setTimeout\<close> runs later, as an event of its own.
\<close>

definition setUserId :: "config \<Rightarrow> emit_env \<Rightarrow> string option \<Rightarrow> pipeline \<Rightarrow> pipeline result" where
  "setUserId cfg io userId st =
     log cfg io INFO ''Logger'' ''User ID set''
       [(''userId'', case userId of None \<Rightarrow> Null | Some u \<Rightarrow> Str u),
        (''sessionId'', Str (SESSION_ID cfg))]
       (st\<lparr>currentUserId := userId\<rparr>)"

subsection \<open>Retention sweep of the remote store\<close>

text \<open>
  \<open>cleanupOldFirebaseLogs\<close> is an asynchronous function: it awaits the \<open>get\<close> of the
  user's node and then, inside the loop, every \<open>remove\<close>. Other work runs at each of
  these points, so the sweep is three pieces: the call up to the pending \<open>get\<close>, the
  resumption when the \<open>get\<close> settles, and the resumption when a \<open>remove\<close> settles.
  The path of the \<open>get\<close> is built from \<open>currentUserId\<close> at the call; the path of each
  \<open>remove\<close> is built from \<open>currentUserId\<close> at the moment that \<open>remove\<close> is issued.

  What a resumption reads from outside: the clock (\<open>cutoffTime\<close> is computed when the
  \<open>get\<close> has resolved) and the surroundings of the \<open>logger.info\<close> call at the end.
\<close>

record sweep_env =
  sweep_now :: int
  sweep_log :: emit_env

text \<open>
  \<open>Object.values\<close> of one session node, and \<open>Object.entries\<close> of a user's node. A node
  exists only while it has records, so \<open>snapshot.exists()\<close> is false exactly when there
  is no session. The order in which the sessions are listed matters only when a
  \<open>remove\<close> rejects or the user changes during the sweep; no property below depends on
  it.
\<close>

definition records_under :: "string \<Rightarrow> string \<Rightarrow> (string \<times> string \<times> entry) list \<Rightarrow> entry list" where
  "records_under u s rs = map (\<lambda>r. snd (snd r)) (filter (\<lambda>r. fst r = u \<and> fst (snd r) = s) rs)"

definition sessions_of :: "string \<Rightarrow> (string \<times> string \<times> entry) list \<Rightarrow> (string \<times> entry list) list" where
  "sessions_of u rs =
     map (\<lambda>s. (s, records_under u s rs)) (remdups (map (\<lambda>r. fst (snd r)) (filter (\<lambda>r. fst r = u) rs)))"

text \<open>\<open>logs.reduce((oldest, log) => log.timestamp < oldest.timestamp ? log : oldest, logs[0])\<close>\<close>

definition oldestLog :: "entry list \<Rightarrow> entry" where
  "oldestLog logs = foldl (\<lambda>oldest l. if timestamp l < timestamp oldest then l else oldest) (hd logs) logs"

text \<open>The template \<open>${currentUserId}\<close> in a path: \<open>null\<close> is spelled out.\<close>

definition path_user :: "string option \<Rightarrow> string" where
  "path_user u = (case u of None \<Rightarrow> ''null'' | Some s \<Rightarrow> s)"

text \<open>The effect of a resolved \<open>remove\<close> of \<open>logs/u/s\<close>: the node and all below it.\<close>

definition remove_session :: "string \<Rightarrow> string \<Rightarrow> (string \<times> string \<times> entry) list \<Rightarrow> (string \<times> string \<times> entry) list" where
  "remove_session u s rs = filter (\<lambda>r. \<not> (fst r = u \<and> fst (snd r) = s)) rs"

text \<open>
  The loop from its current position to the next session it decides to delete: sessions
  without records and sessions whose oldest record is not before the cutoff are passed
  over.
\<close>

fun next_stale :: "int \<Rightarrow> (string \<times> entry list) list \<Rightarrow> (string \<times> (string \<times> entry list) list) option" where
  "next_stale cutoffTime [] = None"
| "next_stale cutoffTime ((sid, logs) # rest) =
     (if logs = [] then next_stale cutoffTime rest
      else if timestamp (oldestLog logs) < cutoffTime then Some (sid, rest)
      else next_stale cutoffTime rest)"

text \<open>
  The \<open>i\<close>-th sweep in flight goes on with the sessions \<open>sessions\<close>. Either it issues the
  next \<open>remove\<close>, for the user bound now, and waits; or the loop is over, the sweep
  logs when it deleted something, and ends.
\<close>

definition sweep_loop ::
  "config \<Rightarrow> sweep_env \<Rightarrow> nat \<Rightarrow> int \<Rightarrow> (string \<times> entry list) list \<Rightarrow> nat \<Rightarrow> pipeline \<Rightarrow> pipeline result" where
  "sweep_loop cfg sw i cutoffTime sessions deletedCount st =
     (case next_stale cutoffTime sessions of
        Some (sid, rest) \<Rightarrow>
          Inr (st\<lparr>sweeps := (sweeps st)
                 [i := AwaitRemove (path_user (currentUserId st)) sid rest cutoffTime deletedCount]\<rparr>)
      | None \<Rightarrow>
          (let st1 = st\<lparr>sweeps := remove_nth i (sweeps st)\<rparr> in
           if deletedCount > 0
           then log cfg (sweep_log sw) INFO ''Logger'' ''Cleaned up old log sessions''
                  [(''deletedSessions'', Num (int deletedCount)), (''cutoffDate'', IsoDate cutoffTime)] st1
           else Inr st1))"

text \<open>\<open>cleanupOldFirebaseLogs\<close> up to its first \<open>await\<close>.\<close>

definition cleanupOldFirebaseLogs :: "config \<Rightarrow> pipeline \<Rightarrow> pipeline" where
  "cleanupOldFirebaseLogs cfg st =
     (if \<not> truthy (currentUserId st) \<or> \<not> database cfg then st
      else st\<lparr>sweeps := sweeps st @ [AwaitGet (the (currentUserId st))]\<rparr>)"

text \<open>
  \<open>cleanupOldFirebaseLogs\<close> from the moment the request the \<open>i\<close>-th sweep in flight is
  waiting for settles. A rejection goes to the \<open>catch\<close> block, which reports on the
  console, and the sweep is over.
\<close>

definition cleanup_resume :: "config \<Rightarrow> nat \<Rightarrow> bool \<Rightarrow> sweep_env \<Rightarrow> pipeline \<Rightarrow> pipeline result" where
  "cleanup_resume cfg i ok sw st =
     (if i < length (sweeps st) then
        (if \<not> ok
         then Inr (st\<lparr>sweeps := remove_nth i (sweeps st),
                      console := console st @ [ConsoleError ''Failed to cleanup old Firebase logs:'']\<rparr>)
         else
           (case sweeps st ! i of
              AwaitGet u \<Rightarrow>
                (let sessions = sessions_of u (remote st) in
                 if sessions = [] then Inr (st\<lparr>sweeps := remove_nth i (sweeps st)\<rparr>)
                 else sweep_loop cfg sw i (sweep_now sw - LOG_RETENTION_MS) sessions 0 st)
            | AwaitRemove u sid rest cutoffTime deletedCount \<Rightarrow>
                sweep_loop cfg sw i cutoffTime rest (Suc deletedCount)
                  (st\<lparr>remote := remove_session u sid (remote st)\<rparr>)))
      else Inr st)"

subsection \<open>Everything that can happen to the pipeline\<close>

text \<open>
  The module runs on one thread; its asynchronous functions interleave at their
  \<open>await\<close>s. An event is one uninterrupted piece of work: a call of one of the four
  logging functions, a call of \<open>setUserId\<close>, a trigger of \<open>flushLogBatch\<close> (the batch
  timer, the periodic timer, \<open>logger.flush\<close>, the page being hidden or unloaded, the
  network coming back), the settling of the \<open>push\<close> a flush in flight is waiting for,
  the start of a retention sweep, and the settling of the \<open>get\<close> or \<open>remove\<close> a sweep
  in flight is waiting for.
\<close>

datatype event =
    Emit emit_env level string string payload
  | SetUserId emit_env "string option"
  | Flush
  | PushSettled nat bool
  | Cleanup
  | SweepSettled nat bool sweep_env

fun step :: "config \<Rightarrow> event \<Rightarrow> pipeline \<Rightarrow> pipeline result" where
  "step cfg (Emit io lv cat msg d) st = log cfg io lv cat msg d st"
| "step cfg (SetUserId io userId) st = setUserId cfg io userId st"
| "step cfg Flush st = Inr (flushLogBatch cfg st)"
| "step cfg (PushSettled i ok) st = flush_resume cfg i ok st"
| "step cfg Cleanup st = Inr (cleanupOldFirebaseLogs cfg st)"
| "step cfg (SweepSettled i ok sw) st = cleanup_resume cfg i ok sw st"

fun run :: "config \<Rightarrow> event list \<Rightarrow> pipeline \<Rightarrow> pipeline result" where
  "run cfg [] st = Inr st"
| "run cfg (ev # evs) st = and_then (step cfg ev st) (run cfg evs)"

section \<open>The aggregation engine of the analytics view\<close>

text \<open>
  \<open>loadAllLogs\<close> hands \<open>analyzeeLogs\<close> the records of the window, each extended with
  the user id and the keys of the path it was read from. \<open>analyzeeLogs\<close> ends in three
  state setters; the model returns the three values. \<open>issueGroups\<close> is a JavaScript
  object used as a dictionary whose keys all contain a colon, so \<open>Object.values\<close> lists
  the groups in insertion order: an association list updated in place. The
  \<open>affectedUsers\<close> field is first a \<open>Set\<close> and then its size, hence the type parameter.
  \<open>Array.prototype.sort\<close> is stable, like \<open>sort_key\<close>.
\<close>

record alog = entry +
  userId :: string
  logId :: string

record 'u issue =
  issue_category :: string
  issue_message :: string
  issue_level :: level
  count :: nat
  affectedUsers :: 'u
  lastSeen :: int
  examples :: "alog list"

record stats =
  totalLogs :: nat
  totalUsers :: nat
  totalErrors :: nat
  totalWarnings :: nat
  authIssues :: nat
  networkIssues :: nat
  syncIssues :: nat

record analysis =
  stats :: stats
  commonIssues :: "nat issue list"
  recentErrors :: "alog list"

definition issue_key :: "alog \<Rightarrow> string" where
  "issue_key l = category l @ '':'' @ message l"

definition new_group :: "alog \<Rightarrow> string set issue" where
  "new_group l = \<lparr>issue_category = category l, issue_message = message l, issue_level = level l,
     count = 0, affectedUsers = {}, lastSeen = timestamp l, examples = []\<rparr>"

definition bump_group :: "alog \<Rightarrow> string set issue \<Rightarrow> string set issue" where
  "bump_group l g =
     g\<lparr>count := count g + 1,
       affectedUsers := insert (userId l) (affectedUsers g),
       lastSeen := max (lastSeen g) (timestamp l),
       examples := (if length (examples g) < 3 then examples g @ [l] else examples g)\<rparr>"

definition add_issue :: "(string \<times> string set issue) list \<Rightarrow> alog \<Rightarrow> (string \<times> string set issue) list" where
  "add_issue issueGroups l =
     (let key = issue_key l;
          g = (case map_of issueGroups key of None \<Rightarrow> new_group l | Some g \<Rightarrow> g)
      in AList.update key (bump_group l g) issueGroups)"

definition with_size :: "string set issue \<Rightarrow> nat issue" where
  "with_size g = \<lparr>issue_category = issue_category g, issue_message = issue_message g,
     issue_level = issue_level g, count = count g, affectedUsers = card (affectedUsers g),
     lastSeen = lastSeen g, examples = examples g\<rparr>"

definition analyzeeLogs :: "alog list \<Rightarrow> analysis" where
  "analyzeeLogs logs =
     (let uniqueUsers = set (map userId logs);
          errors = filter (\<lambda>l. level l = ERROR) logs;
          warnings = filter (\<lambda>l. level l = WARN) logs;
          authIssues = filter (\<lambda>l. category l = ''Auth'' \<and> (level l = ERROR \<or> level l = WARN)) logs;
          networkIssues = filter (\<lambda>l. category l = ''Network'' \<and> (level l = ERROR \<or> level l = WARN)) logs;
          syncIssues = filter (\<lambda>l. (category l = ''Sync'' \<or> category l = ''Firebase'') \<and>
                                     (level l = ERROR \<or> level l = WARN)) logs;
          issueGroups = foldl add_issue [] (filter (\<lambda>l. level l = ERROR \<or> level l = WARN) logs);
          issues = sort_key (\<lambda>i. - int (count i)) (map (\<lambda>p. with_size (snd p)) issueGroups)
      in \<lparr>stats = \<lparr>totalLogs = length logs, totalUsers = card uniqueUsers,
                    totalErrors = length errors, totalWarnings = length warnings,
                    authIssues = length authIssues, networkIssues = length networkIssues,
                    syncIssues = length syncIssues\<rparr>,
          commonIssues = take 10 issues,
          recentErrors = take 20 errors\<rparr>)"

section \<open>Arrays as objects\<close>

text \<open>
  \<open>getBufferedLogs\<close> is \<open>() => [...logBuffer]\<close>. What it promises is about the identity
  of arrays, so here arrays live in a store: an array is a reference, the store maps it
  to the list of its elements, and the elements are references to entry objects. The
  array bound to the module constant \<open>logBuffer\<close> is allocated when the module is loaded.
  The spread allocates a new array and copies the element references.
\<close>

record heap =
  arrays :: "nat \<rightharpoonup> nat list"
  objects :: "nat \<rightharpoonup> entry"
  next_ref :: nat

definition logBuffer_ref :: nat where
  "logBuffer_ref = 0"

text \<open>The buffer exists, and \<open>next_ref\<close> is beyond every allocated array.\<close>

definition heap_ok :: "heap \<Rightarrow> bool" where
  "heap_ok h \<longleftrightarrow> logBuffer_ref \<in> dom (arrays h) \<and> (\<forall>a \<in> dom (arrays h). a < next_ref h)"

text \<open>The store holds the ring buffer of the pipeline state \<open>st\<close>.\<close>

definition represents :: "heap \<Rightarrow> pipeline \<Rightarrow> bool" where
  "represents h st \<longleftrightarrow>
     (case arrays h logBuffer_ref of
        None \<Rightarrow> False
      | Some refs \<Rightarrow> map (objects h) refs = map Some (logBuffer st))"

definition getBufferedLogs :: "heap \<Rightarrow> (nat \<times> heap) option" where
  "getBufferedLogs h =
     (case arrays h logBuffer_ref of
        None \<Rightarrow> None
      | Some refs \<Rightarrow>
          Some (next_ref h, h\<lparr>arrays := (arrays h)(next_ref h \<mapsto> refs), next_ref := Suc (next_ref h)\<rparr>))"

text \<open>
  Whatever a caller does to an array it holds (\<open>push\<close>, \<open>pop\<close>, \<open>splice\<close>, \<open>sort\<close>,
  assigning an index or \<open>length\<close>) replaces the element list of that one array.
\<close>

definition array_mutate :: "nat \<Rightarrow> (nat list \<Rightarrow> nat list) \<Rightarrow> heap \<Rightarrow> heap" where
  "array_mutate a f h =
     (case arrays h a of None \<Rightarrow> h | Some refs \<Rightarrow> h\<lparr>arrays := (arrays h)(a \<mapsto> f refs)\<rparr>)"

section \<open>Notions used to state the properties\<close>

text \<open>
  The state in which \<open>log\<close> goes on after \<open>saveLogLocally(entry).catch(() => {})\<close>,
  and the state it ends in after \<open>saveLogToFirebase(entry).catch(() => {})\<close>, written
  without the promises (\<open>log_unfold\<close> below).
\<close>

definition after_local :: "local_outcome \<Rightarrow> entry \<Rightarrow> pipeline \<Rightarrow> pipeline" where
  "after_local io e st =
     (case io of
        LocalOk \<Rightarrow> st\<lparr>localStore := localStore st @ [e]\<rparr>
      | LocalOpenFails \<Rightarrow> st\<lparr>console := console st @ [ConsoleError ''Failed to save log locally:'']\<rparr>
      | LocalAddFails \<Rightarrow> st)"

definition after_remote :: "config \<Rightarrow> entry \<Rightarrow> pipeline \<Rightarrow> pipeline" where
  "after_remote cfg e st =
     (if \<not> truthy (currentUserId st) \<or> \<not> database cfg then st
      else if IS_PRODUCTION cfg \<and> level e = DEBUG then st
      else if length (logBatch st) + 1 \<ge> MAX_BATCH_SIZE
        then flushLogBatch cfg (st\<lparr>logBatch := logBatch st @ [e]\<rparr>)
        else st\<lparr>logBatch := logBatch st @ [e], batchFlushTimer := True\<rparr>)"

text \<open>The sessions of a snapshot that the loop decides to delete, and their ids.\<close>

definition stale_sessions :: "int \<Rightarrow> (string \<times> entry list) list \<Rightarrow> (string \<times> entry list) list" where
  "stale_sessions c ss = filter (\<lambda>p. snd p \<noteq> [] \<and> timestamp (oldestLog (snd p)) < c) ss"

definition stale_ids :: "int \<Rightarrow> (string \<times> entry list) list \<Rightarrow> string set" where
  "stale_ids c ss = {sid. \<exists>logs. (sid, logs) \<in> set ss \<and> logs \<noteq> [] \<and> timestamp (oldestLog logs) < c}"

text \<open>
  Events that neither bind a user nor add or delete remote records nor touch a sweep:
  logging calls and flush triggers. A sweep whose requests all resolve, as events: each
  element of \<open>segs\<close> is the quiet work that runs while one request is pending, and what
  the resumption reads when the request has resolved.
\<close>

definition quiet :: "event \<Rightarrow> bool" where
  "quiet ev = (case ev of Emit io lv cat msg d \<Rightarrow> True | Flush \<Rightarrow> True | _ \<Rightarrow> False)"

definition settled_sweep :: "nat \<Rightarrow> (event list \<times> sweep_env) list \<Rightarrow> event list" where
  "settled_sweep i segs = concat (map (\<lambda>p. fst p @ [SweepSettled i True (snd p)]) segs)"

text \<open>
  No \<open>debug\<close> entry anywhere on the way to the remote store: not in the pending batch,
  not in the snapshot of a flush in flight, not in the remote store itself.
\<close>

definition debug_free :: "entry list \<Rightarrow> bool" where
  "debug_free es = list_all (\<lambda>e. level e \<noteq> DEBUG) es"

definition no_debug_remote :: "pipeline \<Rightarrow> bool" where
  "no_debug_remote st \<longleftrightarrow>
     debug_free (logBatch st) \<and>
     list_all (\<lambda>f. debug_free (logsToSend f)) (flights st) \<and>
     debug_free (map (\<lambda>r. snd (snd r)) (remote st))"

text \<open>
  A call of a logging function as an event, and the entries of a sequence of calls that
  pass the production gate (those a bound pipeline puts on the pending batch).
\<close>

definition emit_event :: "emit_call \<Rightarrow> event" where
  "emit_event c = (case c of (io, lv, cat, msg, d) \<Rightarrow> Emit io lv cat msg d)"

definition enqueued :: "config \<Rightarrow> emit_call list \<Rightarrow> entry list" where
  "enqueued cfg cs = filter (\<lambda>e. \<not> (IS_PRODUCTION cfg \<and> level e = DEBUG)) (map (entry_of cfg) cs)"

text \<open>
  \<open>flights_follow st st'\<close>: every flush in flight in \<open>st'\<close> either continues one of
  \<open>st\<close>, with the same target and snapshot, or has just started, and then its target is
  the user bound in \<open>st'\<close>.
\<close>

definition continues :: "flight \<Rightarrow> flight \<Rightarrow> bool" where
  "continues f g \<longleftrightarrow> target f = target g \<and> logsToSend f = logsToSend g"

definition flights_follow :: "pipeline \<Rightarrow> pipeline \<Rightarrow> bool" where
  "flights_follow st st' \<longleftrightarrow>
     (\<forall>f \<in> set (flights st').
        (\<exists>g \<in> set (flights st). continues f g) \<or>
        truthy (currentUserId st') \<and> target f = the (currentUserId st') \<and> sent f = 0)"

text \<open>
  What the loop over the \<open>warn\<close> and \<open>error\<close> records has built after the records
  \<open>ls\<close>: one group per key, in which the count and the users are those of the records
  with that key.
\<close>

definition grouped :: "alog list \<Rightarrow> (string \<times> string set issue) list \<Rightarrow> bool" where
  "grouped ls gs \<longleftrightarrow>
     distinct (map fst gs) \<and> fst ` set gs = issue_key ` set ls \<and>
     (\<forall>k g. map_of gs k = Some g \<longrightarrow>
        count g = length (filter (\<lambda>l. issue_key l = k) ls) \<and>
        affectedUsers g = userId ` {l \<in> set ls. issue_key l = k} \<and>
        (\<exists>l \<in> set ls. issue_key l = k \<and> issue_category g = category l \<and> issue_message g = message l))"

text \<open>
  The count the claim speaks of: the records of the window at level \<open>warn\<close> or \<open>error\<close>
  whose category is exactly \<open>c\<close>.
\<close>

definition issues_with_category :: "string \<Rightarrow> alog list \<Rightarrow> nat" where
  "issues_with_category c logs =
     length (filter (\<lambda>l. category l = c \<and> (level l = WARN \<or> level l = ERROR)) logs)"

section \<open>Concrete inputs\<close>

text \<open>
  Concrete inputs: the state right after the module is loaded, a development and a
  production build, and a call of \<open>logger.info\<close> at clock reading \<open>i\<close>.
\<close>

definition initial :: pipeline where
  "initial = \<lparr>logBuffer = [], logBatch = [], batchFlushTimer = False, currentUserId = None,
     logListeners = [], localStore = [], remote = [], flights = [], sweeps = [], console = []\<rparr>"

definition dev_cfg :: config where
  "dev_cfg = \<lparr>IS_PRODUCTION = False, SESSION_ID = ''session_1_abc'', database = True\<rparr>"

definition prod_cfg :: config where
  "prod_cfg = \<lparr>IS_PRODUCTION = True, SESSION_ID = ''session_1_abc'', database = True\<rparr>"

definition io_at :: "int \<Rightarrow> emit_env" where
  "io_at t = \<lparr>env_now = t, env_href = ''https://app/'', env_agent = ''UA'', env_local = LocalOk\<rparr>"

definition tick :: "nat \<Rightarrow> emit_call" where
  "tick i = (io_at (int i), INFO, ''App'', ''tick'', [])"

text \<open>Concrete inputs for the sweep.\<close>

definition info_at :: "int \<Rightarrow> entry" where
  "info_at t = make_entry dev_cfg (io_at t) INFO ''App'' ''tick'' []"

definition sweep_at :: "int \<Rightarrow> sweep_env" where
  "sweep_at t = \<lparr>sweep_now = t, sweep_log = io_at t\<rparr>"

definition mixed_store :: pipeline where
  "mixed_store = initial\<lparr>currentUserId := Some ''alice'',
     remote := [(''alice'', ''s1'', info_at 0), (''alice'', ''s1'', info_at 5000),
                (''alice'', ''s2'', info_at 6000), (''bob'', ''s3'', info_at 0)]\<rparr>"

text \<open>Concrete inputs: a bound pipeline, a listener that throws, a failing local store.\<close>

definition bound_to :: "string \<Rightarrow> pipeline" where
  "bound_to u = initial\<lparr>currentUserId := Some u\<rparr>"

definition throwing_listener :: "entry \<Rightarrow> unit result" where
  "throwing_listener e = Inl ListenerError"

definition io_failing :: "int \<Rightarrow> local_outcome \<Rightarrow> emit_env" where
  "io_failing t lo = (io_at t)\<lparr>env_local := lo\<rparr>"

definition uid_set :: "int \<Rightarrow> string \<Rightarrow> entry" where
  "uid_set t u = make_entry dev_cfg (io_at t) INFO ''Logger'' ''User ID set''
     [(''userId'', Str u), (''sessionId'', Str (SESSION_ID dev_cfg))]"

definition auth_warn :: entry where
  "auth_warn = make_entry dev_cfg (io_at 2) WARN ''Auth'' ''token expired'' []"

definition stale_flight :: pipeline where
  "stale_flight = initial\<lparr>currentUserId := Some ''carol'',
     flights := [\<lparr>target = ''bob'', logsToSend = [auth_warn], sent = 0\<rparr>]\<rparr>"

text \<open>
  Runs whose outcome the counterexamples look at: a sweep over \<open>mixed_store\<close> at cutoff
  1000; a sweep started under alice during whose \<open>get\<close> bob is bound; a flush of two entries whose second push rejects after a third entry has
  arrived; a warning logged while alice is bound, before and after bob is bound and the
  batch is flushed.
\<close>

definition after_mixed_sweep :: "pipeline result" where
  "after_mixed_sweep =
     run dev_cfg [Cleanup, SweepSettled 0 True (sweep_at 2592001000),
                  SweepSettled 0 True (sweep_at 2592001000)] mixed_store"

definition shared_session_store :: pipeline where
  "shared_session_store = initial\<lparr>currentUserId := Some ''alice'',
     remote := [(''alice'', ''s1'', info_at 0), (''bob'', ''s1'', info_at 5000)]\<rparr>"

definition after_rebound_sweep :: "pipeline result" where
  "after_rebound_sweep =
     run dev_cfg [Cleanup, SetUserId (io_at 1) (Some ''bob''),
                  SweepSettled 0 True (sweep_at 2592001000),
                  SweepSettled 0 True (sweep_at 2592001000)] shared_session_store"

definition after_failed_flush :: "pipeline result" where
  "after_failed_flush =
     run dev_cfg [Emit (io_at 1) INFO ''App'' ''tick'' [], Emit (io_at 2) INFO ''App'' ''tick'' [],
                  Flush, PushSettled 0 True, Emit (io_at 3) INFO ''App'' ''tick'' [],
                  PushSettled 0 False] (bound_to ''alice'')"

definition before_rebinding :: "pipeline result" where
  "before_rebinding =
     run dev_cfg [SetUserId (io_at 1) (Some ''alice''),
                  Emit (io_at 2) WARN ''Auth'' ''token expired'' []] initial"

definition after_rebinding :: "pipeline result" where
  "after_rebinding =
     run dev_cfg [SetUserId (io_at 1) (Some ''alice''),
                  Emit (io_at 2) WARN ''Auth'' ''token expired'' [],
                  SetUserId (io_at 3) (Some ''bob''),
                  Flush, PushSettled 0 True, PushSettled 0 True, PushSettled 0 True] initial"

text \<open>A record of the window, for concrete inputs.\<close>

definition remote_rec :: "string \<Rightarrow> int \<Rightarrow> level \<Rightarrow> string \<Rightarrow> string \<Rightarrow> alog" where
  "remote_rec u t lv cat msg =
     \<lparr>timestamp = t, sessionId = ''s'', level = lv, category = cat, message = msg, data = [],
      url = ''https://app/'', userAgent = ''UA'', userId = u, logId = ''k''\<rparr>"

text \<open>The window of the claim, newest record first as \<open>loadAllLogs\<close> sorts it.\<close>

definition window :: "alog list" where
  "window = [remote_rec ''u1'' 4 WARN ''Auth'' ''x'', remote_rec ''u2'' 3 ERROR ''Net'' ''y'',
             remote_rec ''u2'' 2 WARN ''Auth'' ''x'', remote_rec ''u1'' 1 WARN ''Auth'' ''x'']"

definition sync_pair :: "alog list" where
  "sync_pair = [remote_rec ''u1'' 2 WARN ''Sync'' ''retry'', remote_rec ''u1'' 1 ERROR ''Firebase'' ''denied'']"

text \<open>A store whose ring buffer holds two entries.\<close>

definition heap0 :: heap where
  "heap0 = \<lparr>arrays = [0 \<mapsto> [10, 11]], objects = [10 \<mapsto> info_at 1, 11 \<mapsto> info_at 2], next_ref = 12\<rparr>"

section \<open>Properties\<close>

subsection \<open>Shared facts about one call of log\<close>

lemma notify_returns: "notify ls e = Inr ()"
  by (induction ls) (auto simp: and_then_def try_catch_def split: sum.splits)

lemma catch_ignore_returns: "\<exists>st'. catch_ignore r st = Inr st'"
  by (cases r) (simp_all add: catch_ignore_def)

lemma saveLogToFirebase_returns: "\<exists>st'. saveLogToFirebase cfg e st = Inr st'"
  by (simp add: saveLogToFirebase_def Let_def)

lemma catch_saveLogLocally:
  "catch_ignore (saveLogLocally io e st) st = Inr (after_local io e st)"
  by (cases io) (simp_all add: catch_ignore_def saveLogLocally_def initLogDB_def store_add_def after_local_def)

lemma catch_saveLogToFirebase:
  "catch_ignore (saveLogToFirebase cfg e st) st = Inr (after_remote cfg e st)"
  by (simp add: catch_ignore_def saveLogToFirebase_def after_remote_def Let_def)

lemma log_unfold:
  "log cfg io lv cat msg d st =
     Inr (after_remote cfg (make_entry cfg io lv cat msg d)
           (after_local (env_local io) (make_entry cfg io lv cat msg d)
             (st\<lparr>logBuffer := buffer_push (make_entry cfg io lv cat msg d) (logBuffer st),
                 console := console st @ [ConsoleLog (make_entry cfg io lv cat msg d)]\<rparr>)))"
  by (simp add: log_def Let_def notify_returns and_then_def catch_saveLogLocally catch_saveLogToFirebase)

lemma logBuffer_after_local [simp]: "logBuffer (after_local io e st) = logBuffer st"
  by (cases io) (simp_all add: after_local_def)

lemma logBuffer_flushLogBatch [simp]: "logBuffer (flushLogBatch cfg st) = logBuffer st"
  by (simp add: flushLogBatch_def Let_def)

lemma logBuffer_after_remote [simp]: "logBuffer (after_remote cfg e st) = logBuffer st"
  by (simp add: after_remote_def)

lemma logBuffer_log:
  "log cfg io lv cat msg d st = Inr st' \<Longrightarrow>
   logBuffer st' = buffer_push (make_entry cfg io lv cat msg d) (logBuffer st)"
  by (simp add: log_unfold) auto

lemma run_append: "run cfg (xs @ ys) st = and_then (run cfg xs st) (run cfg ys)"
  by (induction xs arbitrary: st) (auto simp: and_then_def split: sum.splits)

lemma run_then:
  "run cfg xs st = Inr st1 \<Longrightarrow> run cfg ys st1 = Inr st2 \<Longrightarrow> run cfg (xs @ ys) st = Inr st2"
  by (simp add: run_append and_then_def)

subsection \<open>The ring buffer\<close>

lemma buffer_push_last:
  assumes "length buf \<le> MAX_BUFFER_SIZE"
  shows "buffer_push e buf = drop (length (buf @ [e]) - MAX_BUFFER_SIZE) (buf @ [e])"
proof (cases "length buf < MAX_BUFFER_SIZE")
  case True
  then show ?thesis by (simp add: buffer_push_def Let_def)
next
  case False
  with assms have full: "length buf = MAX_BUFFER_SIZE" by simp
  then have "buffer_push e buf = tl (buf @ [e])"
    by (simp add: buffer_push_def Let_def)
  also have "\<dots> = drop (length (buf @ [e]) - MAX_BUFFER_SIZE) (buf @ [e])"
    using full by (cases buf) auto
  finally show ?thesis .
qed

lemma buffer_push_length:
  "length buf \<le> MAX_BUFFER_SIZE \<Longrightarrow> length (buffer_push e buf) \<le> MAX_BUFFER_SIZE"
  by (auto simp: buffer_push_def Let_def)

lemma drop_window:
  fixes xs :: "'a list"
  shows "drop (length (drop (length xs - m) xs @ ys) - m) (drop (length xs - m) xs @ ys)
       = drop (length (xs @ ys) - m) (xs @ ys)"
proof -
  let ?k = "length xs - m"
  have "length (drop ?k xs @ ys) - m + ?k = length (xs @ ys) - m"
    by (cases "length xs \<le> m") auto
  moreover have "drop ?k xs @ ys = drop ?k (xs @ ys)"
    by simp
  ultimately show ?thesis
    by (metis add.commute drop_drop)
qed

lemma emits_logBuffer:
  "length (logBuffer st) \<le> MAX_BUFFER_SIZE \<Longrightarrow>
   \<exists>st'. emits cfg cs st = Inr st' \<and>
     logBuffer st' = drop (length (logBuffer st @ map (entry_of cfg) cs) - MAX_BUFFER_SIZE)
                          (logBuffer st @ map (entry_of cfg) cs)"
proof (induction cs arbitrary: st)
  case Nil
  then show ?case by simp
next
  case (Cons c cs)
  obtain io lv cat msg d where c: "c = (io, lv, cat, msg, d)" by (cases c) auto
  let ?e = "make_entry cfg io lv cat msg d"
  obtain st1 where st1: "log cfg io lv cat msg d st = Inr st1"
    by (simp add: log_unfold)
  have buf1: "logBuffer st1 = buffer_push ?e (logBuffer st)"
    using logBuffer_log [OF st1] .
  have len1: "length (logBuffer st1) \<le> MAX_BUFFER_SIZE"
    using Cons.prems by (simp add: buf1 buffer_push_length)
  from Cons.IH [OF len1] obtain st' where run: "emits cfg cs st1 = Inr st'"
    and buf: "logBuffer st' = drop (length (logBuffer st1 @ map (entry_of cfg) cs) - MAX_BUFFER_SIZE)
                          (logBuffer st1 @ map (entry_of cfg) cs)"
    by blast
  have win: "logBuffer st1 = drop (length (logBuffer st @ [?e]) - MAX_BUFFER_SIZE) (logBuffer st @ [?e])"
    using Cons.prems by (simp add: buf1 buffer_push_last)
  have "emits cfg (c # cs) st = Inr st'"
    by (simp add: c st1 and_then_def run)
  moreover have "logBuffer st' =
      drop (length (logBuffer st @ map (entry_of cfg) (c # cs)) - MAX_BUFFER_SIZE)
           (logBuffer st @ map (entry_of cfg) (c # cs))"
  proof -
    let ?xs = "logBuffer st @ [?e]"
    let ?ys = "map (entry_of cfg) cs"
    have "logBuffer st' = drop (length (drop (length ?xs - MAX_BUFFER_SIZE) ?xs @ ?ys) - MAX_BUFFER_SIZE)
                               (drop (length ?xs - MAX_BUFFER_SIZE) ?xs @ ?ys)"
      using buf win by simp
    also have "\<dots> = drop (length (?xs @ ?ys) - MAX_BUFFER_SIZE) (?xs @ ?ys)"
      by (rule drop_window)
    finally show ?thesis by (simp add: c entry_of_def)
  qed
  ultimately show ?case by blast
qed

text \<open>
  C4. Starting from the empty buffer of a freshly loaded module, every sequence of \<open>n\<close>
  emit calls returns, and afterwards the ring buffer holds exactly the last
  \<open>min n 500\<close> emitted entries in emission order; its length is \<open>min n 500\<close>, so it
  never exceeds 500.
\<close>

theorem ring_buffer_keeps_last_500:
  assumes "logBuffer st = []"
  shows "\<exists>st'. emits cfg cs st = Inr st' \<and>
           logBuffer st' = drop (length cs - min (length cs) 500) (map (entry_of cfg) cs) \<and>
           length (logBuffer st') = min (length cs) 500 \<and>
           length (logBuffer st') \<le> 500"
proof -
  have "length (logBuffer st) \<le> MAX_BUFFER_SIZE"
    using assms by simp
  from emits_logBuffer [OF this, of cfg cs] obtain st'
    where run: "emits cfg cs st = Inr st'"
      and buf: "logBuffer st' = drop (length cs - 500) (map (entry_of cfg) cs)"
    using assms by (auto simp: MAX_BUFFER_SIZE_def)
  have "length cs - min (length cs) 500 = length cs - 500"
    by simp
  with run buf show ?thesis
    by auto
qed

theorem ring_buffer_keeps_last_500_witness:
  "logBuffer initial = [] \<and>
   (\<exists>st'. emits dev_cfg (map tick [0..<501]) initial = Inr st' \<and>
          logBuffer st' = map (entry_of dev_cfg \<circ> tick) [1..<501] \<and>
          length (logBuffer st') = 500)"
  using ring_buffer_keeps_last_500 [of initial dev_cfg "map tick [0..<501]"]
  by (auto simp add: initial_def drop_map)

subsection \<open>The retention sweep\<close>

lemma Min_insert_drop_left:
  fixes a x :: int
  assumes "finite S" "x < a"
  shows "Min (insert a (insert x S)) = Min (insert x S)"
proof -
  have "Min (insert x S) \<le> x" using assms(1) by simp
  moreover have "Min (insert a (insert x S)) = min a (Min (insert x S))"
    using assms(1) by simp
  ultimately show ?thesis using assms(2) by simp
qed

lemma Min_insert_drop_right:
  fixes a x :: int
  assumes "finite S" "\<not> x < a"
  shows "Min (insert a (insert x S)) = Min (insert a S)"
proof -
  have "Min (insert a S) \<le> a" using assms(1) by simp
  moreover have "Min (insert x (insert a S)) = min x (Min (insert a S))"
    using assms(1) by simp
  ultimately show ?thesis using assms(2) by (simp add: insert_commute)
qed

lemma oldest_fold_min:
  "timestamp (foldl (\<lambda>oldest l. if timestamp l < timestamp oldest then l else oldest) a xs)
     = Min (insert (timestamp a) (timestamp ` set xs))"
proof (induction xs arbitrary: a)
  case Nil
  then show ?case by simp
next
  case (Cons x xs)
  show ?case
  proof (cases "timestamp x < timestamp a")
    case True
    then show ?thesis
      using Min_insert_drop_left [of "timestamp ` set xs" "timestamp x" "timestamp a"]
      by (simp add: Cons.IH)
  next
    case False
    then show ?thesis
      using Min_insert_drop_right [of "timestamp ` set xs" "timestamp x" "timestamp a"]
      by (simp add: Cons.IH)
  qed
qed

lemma oldestLog_min:
  "logs \<noteq> [] \<Longrightarrow> timestamp (oldestLog logs) = Min (timestamp ` set logs)"
  by (cases logs) (simp_all add: oldestLog_def oldest_fold_min del: foldl_Cons)

lemma stale_ids_Nil [simp]: "stale_ids c [] = {}"
  by (simp add: stale_ids_def)

lemma stale_ids_Cons:
  "stale_ids c ((sid, logs) # ss) =
     (if logs \<noteq> [] \<and> timestamp (oldestLog logs) < c then insert sid (stale_ids c ss) else stale_ids c ss)"
  by (auto simp: stale_ids_def)

lemma sessions_of_member:
  "(sid, logs) \<in> set (sessions_of u rs) \<longleftrightarrow>
     (\<exists>r \<in> set rs. fst r = u \<and> fst (snd r) = sid) \<and> logs = records_under u sid rs"
  by (auto simp: sessions_of_def)

lemma records_under_nonempty:
  "records_under u s rs \<noteq> [] \<longleftrightarrow> (\<exists>r \<in> set rs. fst r = u \<and> fst (snd r) = s)"
  by (auto simp: records_under_def filter_empty_conv)

lemma stale_ids_sessions_of:
  "s \<in> stale_ids c (sessions_of u rs) \<longleftrightarrow>
     records_under u s rs \<noteq> [] \<and> Min (timestamp ` set (records_under u s rs)) < c"
proof (cases "records_under u s rs = []")
  case True
  then show ?thesis
    by (auto simp: stale_ids_def sessions_of_member)
next
  case False
  then have "\<exists>r \<in> set rs. fst r = u \<and> fst (snd r) = s"
    by (simp add: records_under_nonempty)
  then show ?thesis
    using False by (auto simp: stale_ids_def sessions_of_member oldestLog_min)
qed

lemma remote_after_local [simp]: "remote (after_local io e st) = remote st"
  by (cases io) (simp_all add: after_local_def)

lemma remote_flushLogBatch [simp]: "remote (flushLogBatch cfg st) = remote st"
  by (simp add: flushLogBatch_def Let_def)

lemma remote_after_remote [simp]: "remote (after_remote cfg e st) = remote st"
  by (simp add: after_remote_def)

lemma remote_log: "log cfg io lv cat msg d st = Inr st' \<Longrightarrow> remote st' = remote st"
  by (simp add: log_unfold) auto

lemma log_returns: "\<exists>st'. log cfg io lv cat msg d st = Inr st'"
  by (simp add: log_unfold)

lemma records_under_filter:
  "records_under u' s (filter (\<lambda>r. \<not> (fst r = u \<and> fst (snd r) \<in> A)) rs) =
     (if u' = u \<and> s \<in> A then [] else records_under u' s rs)"
proof -
  have "filter (\<lambda>r. fst r = u' \<and> fst (snd r) = s) (filter (\<lambda>r. \<not> (fst r = u \<and> fst (snd r) \<in> A)) rs)
      = (if u' = u \<and> s \<in> A then [] else filter (\<lambda>r. fst r = u' \<and> fst (snd r) = s) rs)"
    by (auto simp: filter_empty_conv intro: filter_cong)
  then show ?thesis
    by (simp add: records_under_def)
qed

lemma log_keeps:
  assumes "log cfg io lv cat msg d st = Inr st'"
  shows "currentUserId st' = currentUserId st \<and> remote st' = remote st \<and> sweeps st' = sweeps st"
  using assms
  by (cases "env_local io")
     (auto simp: log_unfold after_remote_def after_local_def flushLogBatch_def Let_def)

lemma quiet_step:
  assumes "quiet ev"
  shows "\<exists>st'. step cfg ev st = Inr st' \<and> currentUserId st' = currentUserId st \<and>
           remote st' = remote st \<and> sweeps st' = sweeps st"
proof (cases ev)
  case (Emit io lv cat msg d)
  from log_returns obtain st' where "log cfg io lv cat msg d st = Inr st'" by blast
  with Emit log_keeps show ?thesis by auto
next
  case Flush
  then show ?thesis by (simp add: flushLogBatch_def Let_def)
qed (use assms in \<open>simp_all add: quiet_def\<close>)

lemma quiet_run:
  assumes "\<forall>ev \<in> set qs. quiet ev"
  shows "\<exists>st'. run cfg qs st = Inr st' \<and> currentUserId st' = currentUserId st \<and>
           remote st' = remote st \<and> sweeps st' = sweeps st"
  using assms
proof (induction qs arbitrary: st)
  case Nil
  then show ?case by simp
next
  case (Cons ev qs)
  from Cons.prems have "quiet ev" by simp
  from quiet_step [OF this] obtain st1 where
    s1: "step cfg ev st = Inr st1" and k1: "currentUserId st1 = currentUserId st"
      "remote st1 = remote st" "sweeps st1 = sweeps st"
    by blast
  from Cons.IH [of st1] Cons.prems obtain st' where
    "run cfg qs st1 = Inr st'" "currentUserId st' = currentUserId st1"
    "remote st' = remote st1" "sweeps st' = sweeps st1"
    by auto
  with s1 k1 show ?case by (simp add: and_then_def)
qed

lemma next_stale_None: "next_stale c ss = None \<longleftrightarrow> stale_sessions c ss = []"
  by (induction c ss rule: next_stale.induct) (auto simp: stale_sessions_def)

lemma next_stale_Some:
  "next_stale c ss = Some (sid, rest) \<Longrightarrow>
   \<exists>logs. stale_sessions c ss = (sid, logs) # stale_sessions c rest"
  by (induction c ss rule: next_stale.induct) (auto simp: stale_sessions_def split: if_splits)

lemma stale_ids_sessions: "stale_ids c ss = fst ` set (stale_sessions c ss)"
  by (force simp: stale_ids_def stale_sessions_def)

lemma settled_sweep_Cons:
  "settled_sweep i (p # segs) = (fst p @ [SweepSettled i True (snd p)]) @ settled_sweep i segs"
  by (simp add: settled_sweep_def)

lemma remove_then_filter:
  "filter (\<lambda>r. \<not> (fst r = u \<and> fst (snd r) \<in> A)) (remove_session u sid rs) =
   filter (\<lambda>r. \<not> (fst r = u \<and> fst (snd r) \<in> insert sid A)) rs"
  unfolding remove_session_def filter_filter by (rule filter_cong) auto

lemma remove_nth_last: "remove_nth (length pre) (pre @ [x]) = pre"
  by (simp add: remove_nth_def)

text \<open>
  A sweep that waits for a \<open>remove\<close> while \<open>u\<close> is bound, followed to its end: every
  request resolves, only quiet work runs in between.
\<close>

lemma removes_settle:
  assumes "currentUserId st = Some u"
    and "sweeps st = pre @ [AwaitRemove u sid rest c n]"
    and "\<forall>p \<in> set segs. \<forall>ev \<in> set (fst p). quiet ev"
    and "length segs = Suc (length (stale_sessions c rest))"
  shows "\<exists>st'. run cfg (settled_sweep (length pre) segs) st = Inr st' \<and> sweeps st' = pre \<and>
           remote st' = filter (\<lambda>r. \<not> (fst r = u \<and> fst (snd r) \<in> insert sid (stale_ids c rest))) (remote st)"
  using assms
proof (induction segs arbitrary: st sid rest n)
  case Nil
  then show ?case by simp
next
  case (Cons p segs)
  let ?i = "length pre"
  from Cons.prems(3) have "\<forall>ev \<in> set (fst p). quiet ev" by simp
  from quiet_run [OF this, of cfg st] obtain st1 where
    r1: "run cfg (fst p) st = Inr st1" and u1: "currentUserId st1 = Some u"
    and m1: "remote st1 = remote st" and w1: "sweeps st1 = pre @ [AwaitRemove u sid rest c n]"
    using Cons.prems(1,2) by auto
  let ?st2 = "st1\<lparr>remote := remove_session u sid (remote st1)\<rparr>"
  have res: "cleanup_resume cfg ?i True (snd p) st1 = sweep_loop cfg (snd p) ?i c rest (Suc n) ?st2"
    by (simp add: cleanup_resume_def w1)
  show ?case
  proof (cases "next_stale c rest")
    case None
    then have none: "stale_sessions c rest = []" by (simp add: next_stale_None)
    with Cons.prems(4) have segs: "segs = []" by simp
    from log_returns obtain st' where
      lg: "log cfg (sweep_log (snd p)) INFO ''Logger'' ''Cleaned up old log sessions''
             [(''deletedSessions'', Num (int (Suc n))), (''cutoffDate'', IsoDate c)]
             (?st2\<lparr>sweeps := remove_nth ?i (sweeps ?st2)\<rparr>) = Inr st'"
      by blast
    from log_keeps [OF lg] have keep: "remote st' = remove_session u sid (remote st)" "sweeps st' = pre"
      by (simp_all add: m1 w1 remove_nth_last)
    have "cleanup_resume cfg ?i True (snd p) st1 = Inr st'"
      using None lg by (simp add: res sweep_loop_def Let_def)
    then have "run cfg [SweepSettled ?i True (snd p)] st1 = Inr st'"
      by (simp add: and_then_def)
    with r1 have "run cfg (settled_sweep ?i (p # segs)) st = Inr st'"
      unfolding segs settled_sweep_Cons by (simp add: run_then settled_sweep_def)
    moreover have "stale_ids c rest = {}"
      by (simp add: stale_ids_sessions none)
    ultimately show ?thesis
      using keep by (auto simp: remove_session_def)
  next
    case (Some q)
    obtain sid' rest' where q: "q = (sid', rest')" by (cases q)
    from next_stale_Some [of c rest sid' rest'] Some q obtain logs where
      st: "stale_sessions c rest = (sid', logs) # stale_sessions c rest'"
      by auto
    let ?st3 = "?st2\<lparr>sweeps := (sweeps ?st2)[?i := AwaitRemove (path_user (currentUserId ?st2)) sid' rest' c (Suc n)]\<rparr>"
    have "cleanup_resume cfg ?i True (snd p) st1 = Inr ?st3"
      using Some q by (simp add: res sweep_loop_def)
    then have r2: "run cfg [SweepSettled ?i True (snd p)] st1 = Inr ?st3"
      by (simp add: and_then_def)
    have w3: "sweeps ?st3 = pre @ [AwaitRemove u sid' rest' c (Suc n)]"
      by (simp add: w1 u1 path_user_def)
    have "length segs = Suc (length (stale_sessions c rest'))"
      using Cons.prems(4) st by simp
    with Cons.IH [of ?st3 sid' rest' "Suc n"] w3 u1 Cons.prems(3) obtain st' where
      r3: "run cfg (settled_sweep ?i segs) ?st3 = Inr st'" and w': "sweeps st' = pre"
      and m': "remote st' = filter (\<lambda>r. \<not> (fst r = u \<and> fst (snd r) \<in> insert sid' (stale_ids c rest')))
                             (remote ?st3)"
      by auto
    have whole: "run cfg (settled_sweep ?i (p # segs)) st = Inr st'"
      unfolding settled_sweep_Cons by (intro run_then [OF run_then [OF r1 r2]] r3)
    have ids: "stale_ids c rest = insert sid' (stale_ids c rest')"
      by (simp add: stale_ids_sessions st)
    have "remote ?st3 = remove_session u sid (remote st)"
      by (simp add: m1)
    with m' have "remote st' =
        filter (\<lambda>r. \<not> (fst r = u \<and> fst (snd r) \<in> insert sid' (stale_ids c rest')))
          (remove_session u sid (remote st))"
      by (simp only:)
    also have "\<dots> = filter (\<lambda>r. \<not> (fst r = u \<and> fst (snd r) \<in> insert sid (insert sid' (stale_ids c rest'))))
          (remote st)"
      by (rule remove_then_filter)
    finally have "remote st' =
        filter (\<lambda>r. \<not> (fst r = u \<and> fst (snd r) \<in> insert sid (stale_ids c rest))) (remote st)"
      unfolding ids .
    with whole w' show ?thesis by blast
  qed
qed

text \<open>
  The whole sweep, from the call on, while \<open>u\<close> stays bound: every request resolves and
  only quiet work runs in between.
\<close>

lemma sweep_remote:
  assumes "currentUserId st = Some u" "u \<noteq> []" "database cfg"
    and "\<forall>p \<in> set ((qs0, sw0) # later). \<forall>ev \<in> set (fst p). quiet ev"
    and "length later = length (stale_sessions (sweep_now sw0 - LOG_RETENTION_MS) (sessions_of u (remote st)))"
  shows "\<exists>st'. run cfg (Cleanup # settled_sweep (length (sweeps st)) ((qs0, sw0) # later)) st = Inr st' \<and>
           sweeps st' = sweeps st \<and>
           remote st' = filter (\<lambda>r. \<not> (fst r = u \<and>
               fst (snd r) \<in> stale_ids (sweep_now sw0 - LOG_RETENTION_MS) (sessions_of u (remote st))))
             (remote st)"
proof -
  let ?i = "length (sweeps st)"
  let ?c = "sweep_now sw0 - LOG_RETENTION_MS"
  let ?ss = "sessions_of u (remote st)"
  let ?st0 = "st\<lparr>sweeps := sweeps st @ [AwaitGet u]\<rparr>"
  have "cleanupOldFirebaseLogs cfg st = ?st0"
    using assms(1-3) by (simp add: cleanupOldFirebaseLogs_def truthy_def)
  then have r0: "run cfg [Cleanup] st = Inr ?st0"
    by (simp add: and_then_def)
  from assms(4) have "\<forall>ev \<in> set qs0. quiet ev" by simp
  from quiet_run [OF this, of cfg ?st0] obtain st1 where
    r1: "run cfg qs0 ?st0 = Inr st1" and u1: "currentUserId st1 = Some u"
    and m1: "remote st1 = remote st" and w1: "sweeps st1 = sweeps st @ [AwaitGet u]"
    using assms(1) by auto
  have shape: "Cleanup # settled_sweep ?i ((qs0, sw0) # later) =
      (([Cleanup] @ qs0) @ [SweepSettled ?i True sw0]) @ settled_sweep ?i later"
    by (simp add: settled_sweep_Cons)
  have r01: "run cfg ([Cleanup] @ qs0) st = Inr st1"
    by (rule run_then [OF r0 r1])
  show ?thesis
  proof (cases "?ss = []")
    case True
    then have "stale_sessions ?c ?ss = []" "stale_ids ?c ?ss = {}"
      by (simp_all add: stale_sessions_def stale_ids_def)
    with assms(5) have later: "later = []" by simp
    have "cleanup_resume cfg ?i True sw0 st1 = Inr (st1\<lparr>sweeps := sweeps st\<rparr>)"
      using True by (simp add: cleanup_resume_def w1 m1 remove_nth_last)
    then have "run cfg [SweepSettled ?i True sw0] st1 = Inr (st1\<lparr>sweeps := sweeps st\<rparr>)"
      by (simp add: and_then_def)
    from run_then [OF r01 this]
    have "run cfg (Cleanup # settled_sweep ?i ((qs0, sw0) # later)) st = Inr (st1\<lparr>sweeps := sweeps st\<rparr>)"
      unfolding shape later by (simp add: settled_sweep_def)
    then show ?thesis
      using \<open>stale_ids ?c ?ss = {}\<close> by (simp add: m1)
  next
    case False
    have res: "cleanup_resume cfg ?i True sw0 st1 = sweep_loop cfg sw0 ?i ?c ?ss 0 st1"
      using False by (simp add: cleanup_resume_def w1 m1 Let_def)
    show ?thesis
    proof (cases "next_stale ?c ?ss")
      case None
      then have none: "stale_sessions ?c ?ss = []" by (simp add: next_stale_None)
      with assms(5) have later: "later = []" by simp
      have "cleanup_resume cfg ?i True sw0 st1 = Inr (st1\<lparr>sweeps := sweeps st\<rparr>)"
        using None by (simp add: res sweep_loop_def w1 remove_nth_last)
      then have "run cfg [SweepSettled ?i True sw0] st1 = Inr (st1\<lparr>sweeps := sweeps st\<rparr>)"
        by (simp add: and_then_def)
      from run_then [OF r01 this]
      have "run cfg (Cleanup # settled_sweep ?i ((qs0, sw0) # later)) st = Inr (st1\<lparr>sweeps := sweeps st\<rparr>)"
        unfolding shape later by (simp add: settled_sweep_def)
      moreover have "stale_ids ?c ?ss = {}"
        by (simp add: stale_ids_sessions none)
      ultimately show ?thesis by (simp add: m1)
    next
      case (Some q)
      obtain sid rest where q: "q = (sid, rest)" by (cases q)
      from next_stale_Some [of ?c ?ss sid rest] Some q obtain logs where
        st: "stale_sessions ?c ?ss = (sid, logs) # stale_sessions ?c rest"
        by auto
      let ?st2 = "st1\<lparr>sweeps := (sweeps st1)[?i := AwaitRemove (path_user (currentUserId st1)) sid rest ?c 0]\<rparr>"
      have "cleanup_resume cfg ?i True sw0 st1 = Inr ?st2"
        using Some q by (simp add: res sweep_loop_def)
      then have r2: "run cfg [SweepSettled ?i True sw0] st1 = Inr ?st2"
        by (simp add: and_then_def)
      have w2: "sweeps ?st2 = sweeps st @ [AwaitRemove u sid rest ?c 0]"
        by (simp add: w1 u1 path_user_def)
      have u2: "currentUserId ?st2 = Some u" by (simp add: u1)
      have q2: "\<forall>p \<in> set later. \<forall>ev \<in> set (fst p). quiet ev"
        using assms(4) by simp
      have l2: "length later = Suc (length (stale_sessions ?c rest))"
        using assms(5) st by simp
      from removes_settle [OF u2 w2 q2 l2, of cfg] obtain st' where
        r3: "run cfg (settled_sweep ?i later) ?st2 = Inr st'" and w': "sweeps st' = sweeps st"
        and m': "remote st' = filter (\<lambda>r. \<not> (fst r = u \<and> fst (snd r) \<in> insert sid (stale_ids ?c rest)))
                               (remote ?st2)"
        by blast
      have "run cfg (Cleanup # settled_sweep ?i ((qs0, sw0) # later)) st = Inr st'"
        unfolding shape by (intro run_then [OF run_then [OF r01 r2]] r3)
      moreover have "stale_ids ?c ?ss = insert sid (stale_ids ?c rest)"
        by (simp add: stale_ids_sessions st)
      ultimately show ?thesis
        using w' m' by (simp add: m1)
    qed
  qed
qed

lemma timestamp_info_at [simp]: "timestamp (info_at t) = t"
  by (simp add: info_at_def make_entry_def io_at_def)

text \<open>
  C5 (as amended). Let a sweep start while user \<open>u\<close> is bound, let its \<open>get\<close> and every
  \<open>remove\<close> it issues resolve, and let only logging calls and flush triggers run while
  it waits, so that \<open>u\<close> stays bound and nobody else writes to the remote store. Then the
  sweep comes to its end, and for every non-empty session group of \<open>u\<close>: when the
  minimum timestamp among its records is strictly less than the clock reading at the
  resolved \<open>get\<close> minus 30 days (2592000000 ms) the whole group is gone, otherwise the
  group is retained in full. In particular a session all of whose records are at or
  after the cutoff is retained, while a session that holds one record before the cutoff
  is deleted together with its newer records. Other users' partitions are untouched.
  What the sweep deletes when another user is bound while it waits is left open here.
\<close>

theorem sweep_deletes_stale_sessions:
  assumes "currentUserId st = Some u" "u \<noteq> []" "database cfg"
    and "\<forall>p \<in> set ((qs0, sw0) # later). \<forall>ev \<in> set (fst p). quiet ev"
    and "length later = length (stale_sessions (sweep_now sw0 - 2592000000) (sessions_of u (remote st)))"
  shows "\<exists>st'. run cfg (Cleanup # settled_sweep (length (sweeps st)) ((qs0, sw0) # later)) st = Inr st' \<and>
           sweeps st' = sweeps st \<and>
           (\<forall>s. records_under u s (remote st) \<noteq> [] \<longrightarrow>
              (if Min (timestamp ` set (records_under u s (remote st))) < sweep_now sw0 - 2592000000
               then records_under u s (remote st') = []
               else records_under u s (remote st') = records_under u s (remote st))) \<and>
           (\<forall>u' s. u' \<noteq> u \<longrightarrow> records_under u' s (remote st') = records_under u' s (remote st))"
proof -
  have ms: "LOG_RETENTION_MS = 2592000000"
    by (simp add: LOG_RETENTION_MS_def LOG_RETENTION_DAYS_def)
  have l: "length later =
      length (stale_sessions (sweep_now sw0 - LOG_RETENTION_MS) (sessions_of u (remote st)))"
    using assms(5) by (simp add: ms)
  from sweep_remote [OF assms(1-4) l] obtain st' where
    run: "run cfg (Cleanup # settled_sweep (length (sweeps st)) ((qs0, sw0) # later)) st = Inr st'" and
    ended: "sweeps st' = sweeps st" and
    rem: "remote st' = filter (\<lambda>r. \<not> (fst r = u \<and>
               fst (snd r) \<in> stale_ids (sweep_now sw0 - 2592000000) (sessions_of u (remote st))))
             (remote st)"
    unfolding ms by blast
  have after: "records_under u' s (remote st') =
      (if u' = u \<and> s \<in> stale_ids (sweep_now sw0 - 2592000000) (sessions_of u (remote st))
       then [] else records_under u' s (remote st))" for u' s
    unfolding rem by (rule records_under_filter)
  have "\<forall>s. records_under u s (remote st) \<noteq> [] \<longrightarrow>
              (if Min (timestamp ` set (records_under u s (remote st))) < sweep_now sw0 - 2592000000
               then records_under u s (remote st') = []
               else records_under u s (remote st') = records_under u s (remote st))"
    by (simp add: after stale_ids_sessions_of)
  moreover have "\<forall>u' s. u' \<noteq> u \<longrightarrow> records_under u' s (remote st') = records_under u' s (remote st)"
    by (simp add: after)
  ultimately show ?thesis using run ended by blast
qed

lemma mixed_store_sessions:
  "sessions_of ''alice'' (remote mixed_store) =
     [(''s1'', [info_at 0, info_at 5000]), (''s2'', [info_at 6000])]"
  by (simp add: mixed_store_def sessions_of_def records_under_def)

lemma mixed_store_stale:
  "stale_sessions 1000 (sessions_of ''alice'' (remote mixed_store)) = [(''s1'', [info_at 0, info_at 5000])]"
  by (simp add: mixed_store_sessions stale_sessions_def oldestLog_def)

theorem sweep_deletes_stale_sessions_witness:
  "currentUserId mixed_store = Some ''alice'' \<and> database dev_cfg \<and>
   quiet (Emit (io_at 5) INFO ''App'' ''tick'' []) \<and>
   (\<exists>st'. run dev_cfg [Cleanup, SweepSettled 0 True (sweep_at 2592001000),
                        Emit (io_at 5) INFO ''App'' ''tick'' [],
                        SweepSettled 0 True (sweep_at 2592002000)] mixed_store = Inr st' \<and>
          records_under ''alice'' ''s1'' (remote st') = [] \<and>
          records_under ''alice'' ''s2'' (remote st') = [info_at 6000] \<and>
          records_under ''bob'' ''s3'' (remote st') = [info_at 0])"
proof -
  let ?segs = "[([Emit (io_at 5) INFO ''App'' ''tick'' []], sweep_at 2592002000)]"
  have q: "quiet (Emit (io_at 5) INFO ''App'' ''tick'' [])"
    by (simp add: quiet_def)
  have h: "currentUserId mixed_store = Some ''alice''" "''alice'' \<noteq> []" "database dev_cfg"
    "\<forall>p \<in> set (([], sweep_at 2592001000) # ?segs). \<forall>ev \<in> set (fst p). quiet ev"
    using q by (simp_all add: mixed_store_def dev_cfg_def)
  have l: "length ?segs = length (stale_sessions (sweep_now (sweep_at 2592001000) - 2592000000)
        (sessions_of ''alice'' (remote mixed_store)))"
    by (simp add: sweep_at_def mixed_store_stale)
  have s1: "records_under ''alice'' ''s1'' (remote mixed_store) = [info_at 0, info_at 5000]"
    and s2: "records_under ''alice'' ''s2'' (remote mixed_store) = [info_at 6000]"
    and s3: "records_under ''bob'' ''s3'' (remote mixed_store) = [info_at 0]"
    by (simp_all add: mixed_store_def records_under_def)
  have tr: "Cleanup # settled_sweep (length (sweeps mixed_store)) (([], sweep_at 2592001000) # ?segs) =
      [Cleanup, SweepSettled 0 True (sweep_at 2592001000), Emit (io_at 5) INFO ''App'' ''tick'' [],
       SweepSettled 0 True (sweep_at 2592002000)]"
    by (simp add: settled_sweep_def mixed_store_def initial_def)
  from sweep_deletes_stale_sessions [OF h l] obtain st' where
    run: "run dev_cfg [Cleanup, SweepSettled 0 True (sweep_at 2592001000),
            Emit (io_at 5) INFO ''App'' ''tick'' [], SweepSettled 0 True (sweep_at 2592002000)] mixed_store = Inr st'" and
    mine: "\<And>s. records_under ''alice'' s (remote mixed_store) \<noteq> [] \<Longrightarrow>
              (if Min (timestamp ` set (records_under ''alice'' s (remote mixed_store)))
                    < sweep_now (sweep_at 2592001000) - 2592000000
               then records_under ''alice'' s (remote st') = []
               else records_under ''alice'' s (remote st') = records_under ''alice'' s (remote mixed_store))" and
    others: "\<And>u' s. u' \<noteq> ''alice'' \<Longrightarrow>
              records_under u' s (remote st') = records_under u' s (remote mixed_store)"
    unfolding tr by blast
  have "records_under ''alice'' ''s1'' (remote st') = []"
    using mine [of "''s1''"] by (simp add: s1 sweep_at_def)
  moreover have "records_under ''alice'' ''s2'' (remote st') = [info_at 6000]"
    using mine [of "''s2''"] by (simp add: s2 sweep_at_def)
  moreover have "records_under ''bob'' ''s3'' (remote st') = [info_at 0]"
    using others [of "''bob''" "''s3''"] by (simp add: s3)
  ultimately show ?thesis using h(1,3) q run by blast
qed

text \<open>
  The claim as written also promises that a session containing a record at or after the
  cutoff is retained in full. Session \<open>s1\<close> of \<open>mixed_store\<close> holds a record from
  time 0 and one from time 5000; the sweep at cutoff 1000 (\<open>after_mixed_sweep\<close>, with
  alice bound throughout) deletes both.
\<close>

theorem sweep_mixed_session_counterexample:
  "timestamp (info_at 5000) \<ge> sweep_now (sweep_at 2592001000) - LOG_RETENTION_MS \<and>
   records_under ''alice'' ''s1'' (remote mixed_store) = [info_at 0, info_at 5000] \<and>
   \<not> isl after_mixed_sweep \<and>
   records_under ''alice'' ''s1'' (remote (projr after_mixed_sweep)) = []"
proof -
  have ms: "sweep_now (sweep_at 2592001000) - LOG_RETENTION_MS = 1000"
    by (simp add: sweep_at_def LOG_RETENTION_MS_def LOG_RETENTION_DAYS_def)
  have a: "timestamp (info_at 5000) \<ge> sweep_now (sweep_at 2592001000) - LOG_RETENTION_MS"
    by (simp add: ms)
  have b: "records_under ''alice'' ''s1'' (remote mixed_store) = [info_at 0, info_at 5000]"
    by (simp add: mixed_store_def records_under_def)
  have h: "currentUserId mixed_store = Some ''alice''" "''alice'' \<noteq> []" "database dev_cfg"
    "\<forall>p \<in> set (([], sweep_at 2592001000) # [([], sweep_at 2592001000)]). \<forall>ev \<in> set (fst p). quiet ev"
    by (simp_all add: mixed_store_def dev_cfg_def)
  have l: "length [([] :: event list, sweep_at 2592001000)] =
      length (stale_sessions (sweep_now (sweep_at 2592001000) - LOG_RETENTION_MS)
        (sessions_of ''alice'' (remote mixed_store)))"
    by (simp add: ms mixed_store_stale)
  have tr: "Cleanup # settled_sweep (length (sweeps mixed_store))
        (([], sweep_at 2592001000) # [([], sweep_at 2592001000)]) =
      [Cleanup, SweepSettled 0 True (sweep_at 2592001000), SweepSettled 0 True (sweep_at 2592001000)]"
    by (simp add: settled_sweep_def mixed_store_def initial_def)
  from sweep_remote [OF h l] obtain st' where
    run: "after_mixed_sweep = Inr st'" and
    rem: "remote st' = filter (\<lambda>r. \<not> (fst r = ''alice'' \<and>
               fst (snd r) \<in> stale_ids (sweep_now (sweep_at 2592001000) - LOG_RETENTION_MS)
                 (sessions_of ''alice'' (remote mixed_store))))
             (remote mixed_store)"
    unfolding tr after_mixed_sweep_def by blast
  have "''s1'' \<in> stale_ids (sweep_now (sweep_at 2592001000) - LOG_RETENTION_MS)
                 (sessions_of ''alice'' (remote mixed_store))"
    by (simp add: stale_ids_sessions_of b ms)
  then have "records_under ''alice'' ''s1'' (remote st') = []"
    unfolding rem records_under_filter by simp
  moreover have "\<not> isl after_mixed_sweep" "projr after_mixed_sweep = st'"
    unfolding run by simp_all
  ultimately show ?thesis using a b by simp
qed

subsection \<open>The two gates in front of the remote batch\<close>

lemma buffer_push_last_entry:
  "buffer_push e buf \<noteq> [] \<and> last (buffer_push e buf) = e"
proof (cases buf)
  case Nil
  then show ?thesis by (simp add: buffer_push_def MAX_BUFFER_SIZE_def)
next
  case (Cons x xs)
  then show ?thesis by (simp add: buffer_push_def Let_def)
qed

lemma after_local_fields [simp]:
  "logBatch (after_local io e st) = logBatch st"
  "flights (after_local io e st) = flights st"
  "currentUserId (after_local io e st) = currentUserId st"
  "batchFlushTimer (after_local io e st) = batchFlushTimer st"
  "logListeners (after_local io e st) = logListeners st"
  by (cases io; simp add: after_local_def)+

lemma localStore_after_local:
  "localStore (after_local io e st) = (if io = LocalOk then localStore st @ [e] else localStore st)"
  by (cases io) (simp_all add: after_local_def)

lemma after_remote_local [simp]:
  "localStore (after_remote cfg e st) = localStore st"
  "currentUserId (after_remote cfg e st) = currentUserId st"
  by (simp_all add: after_remote_def flushLogBatch_def Let_def)

lemma after_remote_unbound:
  "\<not> truthy (currentUserId st) \<Longrightarrow> after_remote cfg e st = st"
  by (simp add: after_remote_def)

lemma after_remote_gated:
  "IS_PRODUCTION cfg \<Longrightarrow> level e = DEBUG \<Longrightarrow> after_remote cfg e st = st"
  by (simp add: after_remote_def)

text \<open>
  C6. A call of \<open>log\<close> while no user is bound (\<open>currentUserId\<close> is \<open>null\<close> or empty)
  returns; it leaves the pending batch, the flushes in flight, the batch timer and the
  remote store as they were, so nothing is queued and no remote write is started; the
  entry is the newest element of the ring buffer; and the local write is issued like for
  any other entry: the entry is appended to the local store whenever IndexedDB accepts
  the request.
\<close>

theorem unbound_emit_stays_local:
  assumes "\<not> truthy (currentUserId st)"
  shows "\<exists>st'. log cfg io lv cat msg d st = Inr st' \<and>
           logBatch st' = logBatch st \<and> flights st' = flights st \<and> remote st' = remote st \<and>
           batchFlushTimer st' = batchFlushTimer st \<and>
           logBuffer st' \<noteq> [] \<and> last (logBuffer st') = make_entry cfg io lv cat msg d \<and>
           localStore st' = (if env_local io = LocalOk
                             then localStore st @ [make_entry cfg io lv cat msg d]
                             else localStore st)"
proof -
  let ?e = "make_entry cfg io lv cat msg d"
  let ?st2 = "st\<lparr>logBuffer := buffer_push ?e (logBuffer st), console := console st @ [ConsoleLog ?e]\<rparr>"
  have "\<not> truthy (currentUserId (after_local (env_local io) ?e ?st2))"
    using assms by simp
  then have "log cfg io lv cat msg d st = Inr (after_local (env_local io) ?e ?st2)"
    by (simp add: log_unfold after_remote_unbound)
  then show ?thesis
    by (simp add: localStore_after_local buffer_push_last_entry)
qed

theorem unbound_emit_stays_local_witness:
  "\<not> truthy (currentUserId initial) \<and>
   (\<exists>st'. log dev_cfg (io_at 7) WARN ''Auth'' ''token expired'' [] initial = Inr st' \<and>
      logBatch st' = [] \<and> flights st' = [] \<and> remote st' = [] \<and>
      last (logBuffer st') = make_entry dev_cfg (io_at 7) WARN ''Auth'' ''token expired'' [] \<and>
      localStore st' = [make_entry dev_cfg (io_at 7) WARN ''Auth'' ''token expired'' []])"
proof -
  have h: "\<not> truthy (currentUserId initial)"
    by (simp add: initial_def truthy_def)
  from unbound_emit_stays_local [OF h, of dev_cfg "io_at 7" WARN "''Auth''" "''token expired''" "[]"]
  show ?thesis
    using h by (auto simp: initial_def io_at_def)
qed

lemma debug_free_append [simp]: "debug_free (xs @ ys) \<longleftrightarrow> debug_free xs \<and> debug_free ys"
  by (simp add: debug_free_def)

lemma debug_free_Nil [simp]: "debug_free []"
  by (simp add: debug_free_def)

lemma debug_free_single [simp]: "debug_free [e] \<longleftrightarrow> level e \<noteq> DEBUG"
  by (simp add: debug_free_def)

lemma debug_free_subset: "debug_free ys \<Longrightarrow> set xs \<subseteq> set ys \<Longrightarrow> debug_free xs"
  by (auto simp: debug_free_def list_all_iff)

lemma set_remove_nth: "set (remove_nth i xs) \<subseteq> set xs"
  by (auto simp: remove_nth_def dest: in_set_takeD in_set_dropD)

lemma no_debug_after_local [simp]:
  "no_debug_remote (after_local io e st) = no_debug_remote st"
  by (simp add: no_debug_remote_def)

lemma no_debug_flushLogBatch:
  "no_debug_remote st \<Longrightarrow> no_debug_remote (flushLogBatch cfg st)"
  by (simp add: no_debug_remote_def flushLogBatch_def Let_def)

lemma no_debug_after_remote:
  assumes "IS_PRODUCTION cfg" "no_debug_remote st"
  shows "no_debug_remote (after_remote cfg e st)"
proof (cases "level e = DEBUG")
  case True
  then show ?thesis using assms by (simp add: after_remote_gated)
next
  case False
  then have "no_debug_remote (st\<lparr>logBatch := logBatch st @ [e]\<rparr>)"
    using assms(2) by (simp add: no_debug_remote_def)
  moreover from this have "no_debug_remote (st\<lparr>logBatch := logBatch st @ [e], batchFlushTimer := True\<rparr>)"
    by (simp add: no_debug_remote_def)
  ultimately show ?thesis
    using assms(2) by (simp add: after_remote_def no_debug_flushLogBatch)
qed

lemma no_debug_log:
  assumes "IS_PRODUCTION cfg" "no_debug_remote st" "log cfg io lv cat msg d st = Inr st'"
  shows "no_debug_remote st'"
proof -
  let ?e = "make_entry cfg io lv cat msg d"
  have "no_debug_remote (st\<lparr>logBuffer := buffer_push ?e (logBuffer st),
                              console := console st @ [ConsoleLog ?e]\<rparr>)"
    using assms(2) by (simp add: no_debug_remote_def)
  then have "no_debug_remote (after_remote cfg ?e (after_local (env_local io) ?e
      (st\<lparr>logBuffer := buffer_push ?e (logBuffer st), console := console st @ [ConsoleLog ?e]\<rparr>)))"
    using assms(1) by (simp add: no_debug_after_remote)
  with assms(3) show ?thesis by (simp add: log_unfold)
qed

lemma flush_resume_returns: "\<exists>st'. flush_resume cfg i ok st = Inr st'"
  by (simp add: flush_resume_def Let_def try_catch_def and_then_def await_push_def)

lemma no_debug_flush_resume:
  assumes "no_debug_remote st" "flush_resume cfg i ok st = Inr st'"
  shows "no_debug_remote st'"
proof (cases "i < length (flights st) \<and> sent (flights st ! i) < length (logsToSend (flights st ! i))")
  case False
  with assms show ?thesis by (auto simp: flush_resume_def)
next
  case True
  let ?f = "flights st ! i"
  from True have fin: "?f \<in> set (flights st)" by simp
  with assms(1) have df: "debug_free (logsToSend ?f)"
    by (simp add: no_debug_remote_def list_all_iff)
  from True have "logsToSend ?f ! sent ?f \<in> set (logsToSend ?f)" by simp
  with df have lv: "level (logsToSend ?f ! sent ?f) \<noteq> DEBUG"
    by (simp add: debug_free_def list_all_iff)
  have rm: "list_all (\<lambda>f. debug_free (logsToSend f)) (remove_nth i (flights st))"
    using assms(1) set_remove_nth [of i "flights st"]
    by (auto simp: no_debug_remote_def list_all_iff)
  have up: "list_all (\<lambda>f. debug_free (logsToSend f)) ((flights st)[i := ?f\<lparr>sent := Suc (sent ?f)\<rparr>])"
    using assms(1) df by (auto simp: no_debug_remote_def list_all_iff dest!: set_update_subset_insert [THEN subsetD])
  show ?thesis
  proof (cases ok)
    case True
    with \<open>i < length (flights st) \<and> _\<close> assms rm up lv show ?thesis
      by (auto simp: flush_resume_def Let_def try_catch_def and_then_def await_push_def
          no_debug_remote_def split: if_splits)
  next
    case False
    with \<open>i < length (flights st) \<and> _\<close> assms rm df show ?thesis
      by (auto simp: flush_resume_def Let_def try_catch_def and_then_def await_push_def
          no_debug_remote_def)
  qed
qed

lemma sweep_loop_returns: "\<exists>st'. sweep_loop cfg sw i c ss n st = Inr st'"
  using log_returns by (auto simp: sweep_loop_def Let_def split: option.splits)

lemma cleanup_resume_returns: "\<exists>st'. cleanup_resume cfg i ok sw st = Inr st'"
  using sweep_loop_returns by (auto simp: cleanup_resume_def Let_def split: sweep.splits)

lemma no_debug_remote_shrink:
  "no_debug_remote st \<Longrightarrow> set rs \<subseteq> set (remote st) \<Longrightarrow> no_debug_remote (st\<lparr>remote := rs\<rparr>)"
  by (auto simp: no_debug_remote_def debug_free_def list_all_iff)

lemma no_debug_console [simp]:
  "no_debug_remote (st\<lparr>console := c\<rparr>) = no_debug_remote st"
  by (simp add: no_debug_remote_def)

lemma no_debug_sweeps [simp]:
  "no_debug_remote (st\<lparr>sweeps := w\<rparr>) = no_debug_remote st"
  by (simp add: no_debug_remote_def)

lemma no_debug_cleanup_start:
  "no_debug_remote st \<Longrightarrow> no_debug_remote (cleanupOldFirebaseLogs cfg st)"
  by (simp add: cleanupOldFirebaseLogs_def)

lemma no_debug_sweep_loop:
  assumes "IS_PRODUCTION cfg" "no_debug_remote st" "sweep_loop cfg sw i c ss n st = Inr st'"
  shows "no_debug_remote st'"
proof (cases "next_stale c ss")
  case None
  have nd: "no_debug_remote (st\<lparr>sweeps := remove_nth i (sweeps st)\<rparr>)"
    using assms(2) by simp
  show ?thesis
  proof (cases "n > 0")
    case True
    with None assms(3) have "log cfg (sweep_log sw) INFO ''Logger'' ''Cleaned up old log sessions''
        [(''deletedSessions'', Num (int n)), (''cutoffDate'', IsoDate c)]
        (st\<lparr>sweeps := remove_nth i (sweeps st)\<rparr>) = Inr st'"
      by (simp add: sweep_loop_def Let_def)
    with assms(1) nd show ?thesis by (rule no_debug_log)
  next
    case False
    with None assms(3) nd show ?thesis by (auto simp: sweep_loop_def Let_def)
  qed
next
  case (Some q)
  with assms(2,3) show ?thesis
    by (cases q) (auto simp: sweep_loop_def)
qed

lemma no_debug_cleanup_resume:
  assumes "IS_PRODUCTION cfg" "no_debug_remote st" "cleanup_resume cfg i ok sw st = Inr st'"
  shows "no_debug_remote st'"
proof (cases "i < length (sweeps st) \<and> ok")
  case False
  with assms(2,3) show ?thesis
    by (auto simp: cleanup_resume_def split: if_splits)
next
  case True
  show ?thesis
  proof (cases "sweeps st ! i")
    case (AwaitGet u)
    show ?thesis
    proof (cases "sessions_of u (remote st) = []")
      case True
      with \<open>i < length (sweeps st) \<and> ok\<close> AwaitGet assms(2,3) show ?thesis
        by (auto simp: cleanup_resume_def)
    next
      case False
      with \<open>i < length (sweeps st) \<and> ok\<close> AwaitGet assms(3)
      have "sweep_loop cfg sw i (sweep_now sw - LOG_RETENTION_MS) (sessions_of u (remote st)) 0 st = Inr st'"
        by (simp add: cleanup_resume_def Let_def)
      with assms(1,2) show ?thesis by (rule no_debug_sweep_loop)
    qed
  next
    case (AwaitRemove u sid rest c n)
    have "set (remove_session u sid (remote st)) \<subseteq> set (remote st)"
      by (auto simp: remove_session_def)
    with assms(2) have nd: "no_debug_remote (st\<lparr>remote := remove_session u sid (remote st)\<rparr>)"
      by (rule no_debug_remote_shrink)
    from True AwaitRemove assms(3)
    have "sweep_loop cfg sw i c rest (Suc n) (st\<lparr>remote := remove_session u sid (remote st)\<rparr>) = Inr st'"
      by (simp add: cleanup_resume_def)
    with assms(1) nd show ?thesis by (rule no_debug_sweep_loop)
  qed
qed

lemma step_returns: "\<exists>st'. step cfg ev st = Inr st'"
  by (cases ev) (simp_all add: log_returns setUserId_def flush_resume_returns cleanup_resume_returns)

lemma no_debug_step:
  assumes "IS_PRODUCTION cfg" "no_debug_remote st" "step cfg ev st = Inr st'"
  shows "no_debug_remote st'"
proof (cases ev)
  case (Emit io lv cat msg d)
  with assms show ?thesis by (auto dest: no_debug_log)
next
  case (SetUserId io userId)
  have "no_debug_remote (st\<lparr>currentUserId := userId\<rparr>)"
    using assms(2) by (simp add: no_debug_remote_def)
  with assms SetUserId show ?thesis by (auto simp: setUserId_def dest: no_debug_log)
next
  case Flush
  with assms show ?thesis by (auto simp: no_debug_flushLogBatch)
next
  case (PushSettled i ok)
  with assms show ?thesis by (auto dest: no_debug_flush_resume)
next
  case Cleanup
  with assms show ?thesis by (auto simp: no_debug_cleanup_start)
next
  case (SweepSettled i ok sw)
  with assms show ?thesis by (auto dest: no_debug_cleanup_resume)
qed

lemma run_returns: "\<exists>st'. run cfg evs st = Inr st'"
proof (induction evs arbitrary: st)
  case Nil
  then show ?case by simp
next
  case (Cons ev evs)
  from step_returns obtain st1 where "step cfg ev st = Inr st1" by blast
  with Cons show ?case by (simp add: and_then_def)
qed

lemma no_debug_run:
  assumes "IS_PRODUCTION cfg"
  shows "no_debug_remote st \<Longrightarrow> run cfg evs st = Inr st' \<Longrightarrow> no_debug_remote st'"
proof (induction evs arbitrary: st)
  case Nil
  then show ?case by simp
next
  case (Cons ev evs)
  from step_returns obtain st1 where st1: "step cfg ev st = Inr st1" by blast
  with Cons.prems have "run cfg evs st1 = Inr st'" by (simp add: and_then_def)
  moreover have "no_debug_remote st1"
    using assms Cons.prems(1) st1 by (rule no_debug_step)
  ultimately show ?case by (rule Cons.IH [rotated])
qed

text \<open>
  C3. In a production build, (a) whatever events happen (logging calls of any level,
  binding, flush triggers, pushes resolving or rejecting, sweeps), a pipeline without
  \<open>debug\<close> entries in its batch, its flushes in flight and its remote store stays so, and
  every event returns; (b) in every state, a \<open>debug\<close> call leaves the batch, the flushes
  in flight and the remote store untouched, while the entry becomes the newest element
  of the ring buffer and is appended to the local store whenever IndexedDB accepts the
  request.
\<close>

theorem production_debug_never_remote:
  assumes "IS_PRODUCTION cfg"
  shows "(no_debug_remote st \<longrightarrow> (\<exists>st'. run cfg evs st = Inr st' \<and> no_debug_remote st')) \<and>
         (\<exists>st'. log cfg io DEBUG cat msg d st = Inr st' \<and>
            logBatch st' = logBatch st \<and> flights st' = flights st \<and> remote st' = remote st \<and>
            logBuffer st' \<noteq> [] \<and> last (logBuffer st') = make_entry cfg io DEBUG cat msg d \<and>
            localStore st' = (if env_local io = LocalOk
                              then localStore st @ [make_entry cfg io DEBUG cat msg d]
                              else localStore st))"
proof
  show "no_debug_remote st \<longrightarrow> (\<exists>st'. run cfg evs st = Inr st' \<and> no_debug_remote st')"
  proof
    assume nd: "no_debug_remote st"
    from run_returns obtain st' where r: "run cfg evs st = Inr st'" by blast
    with assms nd have "no_debug_remote st'" by (rule no_debug_run)
    with r show "\<exists>st'. run cfg evs st = Inr st' \<and> no_debug_remote st'" by blast
  qed
next
  let ?e = "make_entry cfg io DEBUG cat msg d"
  let ?st2 = "st\<lparr>logBuffer := buffer_push ?e (logBuffer st), console := console st @ [ConsoleLog ?e]\<rparr>"
  have "level ?e = DEBUG" by (simp add: make_entry_def)
  with assms have "log cfg io DEBUG cat msg d st = Inr (after_local (env_local io) ?e ?st2)"
    by (simp add: log_unfold after_remote_gated)
  then show "\<exists>st'. log cfg io DEBUG cat msg d st = Inr st' \<and>
            logBatch st' = logBatch st \<and> flights st' = flights st \<and> remote st' = remote st \<and>
            logBuffer st' \<noteq> [] \<and> last (logBuffer st') = ?e \<and>
            localStore st' = (if env_local io = LocalOk then localStore st @ [?e] else localStore st)"
    by (simp add: localStore_after_local buffer_push_last_entry)
qed

theorem production_debug_never_remote_witness:
  "IS_PRODUCTION prod_cfg \<and> no_debug_remote (bound_to ''alice'') \<and>
   (\<exists>st'. run prod_cfg [Emit (io_at 1) DEBUG ''Sync'' ''poll'' [], Emit (io_at 2) INFO ''App'' ''tick'' [],
                           Flush, PushSettled 0 True] (bound_to ''alice'') = Inr st' \<and>
          no_debug_remote st') \<and>
   (\<exists>st'. log prod_cfg (io_at 1) DEBUG ''Sync'' ''poll'' [] (bound_to ''alice'') = Inr st' \<and>
          logBatch st' = [] \<and> remote st' = [] \<and>
          last (logBuffer st') = make_entry prod_cfg (io_at 1) DEBUG ''Sync'' ''poll'' [] \<and>
          localStore st' = [make_entry prod_cfg (io_at 1) DEBUG ''Sync'' ''poll'' []])"
proof -
  have p: "IS_PRODUCTION prod_cfg" by (simp add: prod_cfg_def)
  have n: "no_debug_remote (bound_to ''alice'')"
    by (simp add: bound_to_def initial_def no_debug_remote_def)
  from production_debug_never_remote [OF p, of "bound_to ''alice''"
      "[Emit (io_at 1) DEBUG ''Sync'' ''poll'' [], Emit (io_at 2) INFO ''App'' ''tick'' [], Flush, PushSettled 0 True]"
      "io_at 1" "''Sync''" "''poll''" "[]"]
  show ?thesis
    using p n by (auto simp: bound_to_def initial_def io_at_def)
qed

subsection \<open>No failure reaches the caller\<close>

text \<open>
  C9. \<open>log\<close> returns normally for every level, category, message and data, whatever the
  listeners do and however the local write goes; the continuation of a flush whose
  \<open>push\<close> rejected returns normally; and so does every sequence of pipeline events.
\<close>

theorem emit_never_raises:
  "(\<exists>st'. log cfg io lv cat msg d st = Inr st') \<and>
   (\<exists>st'. flush_resume cfg i False st = Inr st') \<and>
   (\<exists>st'. run cfg evs st = Inr st')"
  using log_returns flush_resume_returns run_returns by blast

theorem emit_never_raises_witness:
  "(\<exists>st'. log prod_cfg (io_failing 3 LocalAddFails) ERROR ''Net'' ''down'' []
            ((bound_to ''alice'')\<lparr>logListeners := [throwing_listener]\<rparr>) = Inr st') \<and>
   (\<exists>st'. run prod_cfg [Emit (io_failing 3 LocalOpenFails) ERROR ''Net'' ''down'' [], Flush, PushSettled 0 False]
            ((bound_to ''alice'')\<lparr>logListeners := [throwing_listener]\<rparr>) = Inr st')"
  using emit_never_raises [of prod_cfg "io_failing 3 LocalAddFails" ERROR "''Net''" "''down''" "[]"
      "(bound_to ''alice'')\<lparr>logListeners := [throwing_listener]\<rparr>" 0]
    emit_never_raises [of prod_cfg "io_failing 3 LocalOpenFails" ERROR "''Net''" "''down''" "[]"
      "(bound_to ''alice'')\<lparr>logListeners := [throwing_listener]\<rparr>" 0
      "[Emit (io_failing 3 LocalOpenFails) ERROR ''Net'' ''down'' [], Flush, PushSettled 0 False]"]
  by blast

subsection \<open>A flush that fails part-way\<close>

lemma run_emits: "run cfg (map emit_event cs) st = emits cfg cs st"
  by (induction cs arbitrary: st) (auto simp: emit_event_def and_then_def split: sum.splits)

lemma flush_start:
  assumes "truthy (currentUserId st)" "database cfg" "logBatch st \<noteq> []"
  shows "flushLogBatch cfg st = st\<lparr>batchFlushTimer := False, logBatch := [],
           flights := flights st @ [\<lparr>target = the (currentUserId st), logsToSend = logBatch st, sent = 0\<rparr>]\<rparr>"
  using assms by (simp add: flushLogBatch_def Let_def)

lemma push_resolved_more:
  assumes "flights st = fs @ [f]" "Suc (sent f) < length (logsToSend f)"
  shows "flush_resume cfg (length fs) True st =
           Inr (st\<lparr>remote := remote st @ [(target f, SESSION_ID cfg, logsToSend f ! sent f)],
                   flights := fs @ [f\<lparr>sent := Suc (sent f)\<rparr>]\<rparr>)"
  using assms by (simp add: flush_resume_def Let_def try_catch_def and_then_def await_push_def)

lemma push_rejected:
  assumes "flights st = fs @ [f]" "sent f < length (logsToSend f)"
  shows "flush_resume cfg (length fs) False st =
           Inr (st\<lparr>console := console st @ [ConsoleError ''Failed to flush log batch to Firebase:''],
                   logBatch := logsToSend f @ logBatch st, flights := fs\<rparr>)"
  using assms by (simp add: flush_resume_def Let_def try_catch_def and_then_def await_push_def remove_nth_def)

lemma pushes_resolved:
  assumes "flights st = fs @ [f]" "sent f + k < length (logsToSend f)"
  shows "run cfg (replicate k (PushSettled (length fs) True)) st =
           Inr (st\<lparr>remote := remote st @
                      map (\<lambda>e. (target f, SESSION_ID cfg, e)) (take k (drop (sent f) (logsToSend f))),
                   flights := fs @ [f\<lparr>sent := sent f + k\<rparr>]\<rparr>)"
  using assms
proof (induction k arbitrary: st f)
  case 0
  then show ?case by simp
next
  case (Suc k)
  let ?st1 = "st\<lparr>remote := remote st @ [(target f, SESSION_ID cfg, logsToSend f ! sent f)],
                   flights := fs @ [f\<lparr>sent := Suc (sent f)\<rparr>]\<rparr>"
  have one: "flush_resume cfg (length fs) True st = Inr ?st1"
    using Suc.prems by (intro push_resolved_more) auto
  have rest: "run cfg (replicate k (PushSettled (length fs) True)) ?st1 =
      Inr (?st1\<lparr>remote := remote ?st1 @
                 map (\<lambda>e. (target f, SESSION_ID cfg, e)) (take k (drop (Suc (sent f)) (logsToSend f))),
               flights := fs @ [f\<lparr>sent := Suc (sent f) + k\<rparr>]\<rparr>)"
    using Suc.IH [of ?st1 "f\<lparr>sent := Suc (sent f)\<rparr>"] Suc.prems by simp
  have "take (Suc k) (drop (sent f) (logsToSend f)) =
          logsToSend f ! sent f # take k (drop (Suc (sent f)) (logsToSend f))"
    using Suc.prems(2) by (simp flip: Cons_nth_drop_Suc)
  then show ?case
    by (simp add: one rest and_then_def)
qed

lemma emits_enqueue:
  assumes "truthy (currentUserId st)" "database cfg"
    and "length (logBatch st) + length (enqueued cfg cs) < MAX_BATCH_SIZE"
  shows "\<exists>st'. emits cfg cs st = Inr st' \<and> logBatch st' = logBatch st @ enqueued cfg cs \<and>
           flights st' = flights st \<and> remote st' = remote st \<and> currentUserId st' = currentUserId st"
  using assms
proof (induction cs arbitrary: st)
  case Nil
  then show ?case by (simp add: enqueued_def)
next
  case (Cons c cs)
  obtain io lv cat msg d where c: "c = (io, lv, cat, msg, d)" by (cases c) auto
  let ?e = "make_entry cfg io lv cat msg d"
  let ?st2 = "after_local (env_local io) ?e
     (st\<lparr>logBuffer := buffer_push ?e (logBuffer st), console := console st @ [ConsoleLog ?e]\<rparr>)"
  let ?st1 = "after_remote cfg ?e ?st2"
  have lg: "log cfg io lv cat msg d st = Inr ?st1" by (simp add: log_unfold)
  have eq: "enqueued cfg ((io, lv, cat, msg, d) # cs) =
      (if IS_PRODUCTION cfg \<and> level ?e = DEBUG then [] else [?e]) @ enqueued cfg cs"
    by (simp add: enqueued_def entry_of_def)
  have batch1: "logBatch ?st1 = logBatch st @ (if IS_PRODUCTION cfg \<and> level ?e = DEBUG then [] else [?e])"
    and keep: "flights ?st1 = flights st" "remote ?st1 = remote st" "currentUserId ?st1 = currentUserId st"
    using Cons.prems by (auto simp: after_remote_def eq c)
  have "length (logBatch ?st1) + length (enqueued cfg cs) < MAX_BATCH_SIZE"
    using Cons.prems(3) by (simp add: batch1 eq c)
  with Cons.IH [of ?st1] Cons.prems(1,2) keep obtain st' where
    "emits cfg cs ?st1 = Inr st'" "logBatch st' = logBatch ?st1 @ enqueued cfg cs"
    "flights st' = flights ?st1" "remote st' = remote ?st1" "currentUserId st' = currentUserId ?st1"
    by auto
  then show ?case
    using keep by (simp add: c lg and_then_def batch1 eq)
qed

text \<open>
  C1 (as amended). A bound pipeline with \<open>n\<close> entries pending starts a flush; \<open>k < n\<close>
  pushes resolve; meanwhile the calls \<open>cs\<close> enqueue further entries (fewer than ten, so
  that they start no flush of their own); then the next push rejects. The whole run
  returns; the remote store has gained the first \<open>k\<close> entries of the snapshot under the
  bound user and the session; and the pending batch holds all \<open>n\<close> entries of the
  snapshot in their original order, the \<open>k\<close> written ones included, in front of the
  entries enqueued during the flush.
\<close>

theorem failed_flush_requeues_whole_snapshot:
  assumes "truthy (currentUserId st)" "database cfg" "logBatch st \<noteq> []" "k < length (logBatch st)"
    and "length (enqueued cfg cs) < MAX_BATCH_SIZE"
  shows "\<exists>st'. run cfg (Flush # replicate k (PushSettled (length (flights st)) True) @
                        map emit_event cs @ [PushSettled (length (flights st)) False]) st = Inr st' \<and>
           logBatch st' = logBatch st @ enqueued cfg cs \<and>
           remote st' = remote st @
             map (\<lambda>e. (the (currentUserId st), SESSION_ID cfg, e)) (take k (logBatch st)) \<and>
           flights st' = flights st"
proof -
  let ?f = "\<lparr>target = the (currentUserId st), logsToSend = logBatch st, sent = 0\<rparr>"
  let ?i = "length (flights st)"
  let ?st1 = "st\<lparr>batchFlushTimer := False, logBatch := [], flights := flights st @ [?f]\<rparr>"
  let ?st2 = "?st1\<lparr>remote := remote ?st1 @
                 map (\<lambda>e. (target ?f, SESSION_ID cfg, e)) (take k (drop (sent ?f) (logsToSend ?f))),
               flights := flights st @ [?f\<lparr>sent := sent ?f + k\<rparr>]\<rparr>"
  let ?st4 = "\<lambda>st3. st3\<lparr>console := console st3 @ [ConsoleError ''Failed to flush log batch to Firebase:''],
              logBatch := logsToSend (?f\<lparr>sent := k\<rparr>) @ logBatch st3, flights := flights st\<rparr>"
  have "flushLogBatch cfg st = ?st1"
    using assms(1-3) by (rule flush_start)
  then have s1: "run cfg [Flush] st = Inr ?st1"
    by (simp add: and_then_def)
  have s2: "run cfg (replicate k (PushSettled ?i True)) ?st1 = Inr ?st2"
    using assms(4) by (intro pushes_resolved) auto
  have "truthy (currentUserId ?st2)" "length (logBatch ?st2) + length (enqueued cfg cs) < MAX_BATCH_SIZE"
    using assms(1,5) by simp_all
  from emits_enqueue [OF this(1) assms(2) this(2)] obtain st3 where
    s3: "run cfg (map emit_event cs) ?st2 = Inr st3" and b3: "logBatch st3 = enqueued cfg cs"
    and f3: "flights st3 = flights st @ [?f\<lparr>sent := k\<rparr>]"
    and r3: "remote st3 = remote st @ map (\<lambda>e. (the (currentUserId st), SESSION_ID cfg, e)) (take k (logBatch st))"
    by (auto simp: run_emits)
  have "flush_resume cfg ?i False st3 = Inr (?st4 st3)"
    using f3 assms(4) by (intro push_rejected) auto
  then have s4: "run cfg [PushSettled ?i False] st3 = Inr (?st4 st3)"
    by (simp add: and_then_def)
  have "run cfg ([Flush] @ replicate k (PushSettled ?i True) @ map emit_event cs @ [PushSettled ?i False]) st
      = Inr (?st4 st3)"
    by (intro run_then [OF s1] run_then [OF s2] run_then [OF s3] s4)
  with b3 r3 show ?thesis by simp
qed

theorem failed_flush_requeues_whole_snapshot_witness:
  "truthy (currentUserId ((bound_to ''alice'')\<lparr>logBatch := [info_at 1, info_at 2]\<rparr>)) \<and>
   database dev_cfg \<and> 1 < length [info_at 1, info_at 2] \<and>
   length (enqueued dev_cfg [tick 3]) < MAX_BATCH_SIZE \<and>
   (\<exists>st'. run dev_cfg [Flush, PushSettled 0 True, emit_event (tick 3), PushSettled 0 False]
            ((bound_to ''alice'')\<lparr>logBatch := [info_at 1, info_at 2]\<rparr>) = Inr st' \<and>
          logBatch st' = [info_at 1, info_at 2, info_at 3] \<and>
          remote st' = [(''alice'', SESSION_ID dev_cfg, info_at 1)])"
proof -
  let ?st = "(bound_to ''alice'')\<lparr>logBatch := [info_at 1, info_at 2]\<rparr>"
  have h: "truthy (currentUserId ?st)" "database dev_cfg" "logBatch ?st \<noteq> []"
    "1 < length (logBatch ?st)" "length (enqueued dev_cfg [tick 3]) < MAX_BATCH_SIZE"
    by (simp_all add: bound_to_def initial_def truthy_def dev_cfg_def enqueued_def MAX_BATCH_SIZE_def)
  have e: "enqueued dev_cfg [tick 3] = [info_at 3]"
    by (simp add: enqueued_def dev_cfg_def entry_of_def tick_def info_at_def)
  from failed_flush_requeues_whole_snapshot [OF h]
  show ?thesis
    using h by (auto simp: e bound_to_def initial_def)
qed

text \<open>The facts that evaluate a run on a concrete state.\<close>

lemmas trace_eval =
  and_then_def log_unfold after_local_def after_remote_def flushLogBatch_def flush_resume_def
  setUserId_def truthy_def MAX_BATCH_SIZE_def buffer_push_def MAX_BUFFER_SIZE_def
  try_catch_def await_push_def remove_nth_def Let_def
  initial_def bound_to_def dev_cfg_def prod_cfg_def io_at_def

text \<open>
  The claim as written expects only the \<open>n - k\<close> unconfirmed entries back in the batch.
  In \<open>after_failed_flush\<close> two entries are pending, the first push resolves, a third
  entry arrives, the second push rejects: the first entry is in the remote store and
  again in the batch.
\<close>

theorem failed_flush_counterexample:
  "\<not> isl after_failed_flush \<and>
   remote (projr after_failed_flush) = [(''alice'', SESSION_ID dev_cfg, info_at 1)] \<and>
   logBatch (projr after_failed_flush) = [info_at 1, info_at 2, info_at 3] \<and>
   logBatch (projr after_failed_flush) \<noteq> [info_at 2, info_at 3]"
  by (simp add: after_failed_flush_def trace_eval info_at_def make_entry_def)

subsection \<open>Which partition a record is written under\<close>

lemma flights_after_remote:
  "flights (after_remote cfg e st) = flights st \<or>
   truthy (currentUserId st) \<and>
   flights (after_remote cfg e st) =
     flights st @ [\<lparr>target = the (currentUserId st), logsToSend = logBatch st @ [e], sent = 0\<rparr>]"
  by (simp add: after_remote_def flushLogBatch_def Let_def)

lemma log_effect:
  assumes "log cfg io lv cat msg d st = Inr st'"
  shows "remote st' = remote st \<and> currentUserId st' = currentUserId st \<and>
     (flights st' = flights st \<or>
      truthy (currentUserId st) \<and>
      (\<exists>q. flights st' = flights st @ [\<lparr>target = the (currentUserId st), logsToSend = q, sent = 0\<rparr>]))"
proof -
  let ?e = "make_entry cfg io lv cat msg d"
  let ?st2 = "after_local (env_local io) ?e
     (st\<lparr>logBuffer := buffer_push ?e (logBuffer st), console := console st @ [ConsoleLog ?e]\<rparr>)"
  from assms have st': "st' = after_remote cfg ?e ?st2"
    by (simp add: log_unfold)
  have "flights ?st2 = flights st" "currentUserId ?st2 = currentUserId st" "remote ?st2 = remote st"
    by simp_all
  with flights_after_remote [of cfg ?e ?st2] show ?thesis
    unfolding st' by auto
qed

lemma flights_follow_log:
  assumes "log cfg io lv cat msg d st = Inr st'"
  shows "flights_follow st st'"
  using log_effect [OF assms] by (auto simp: flights_follow_def continues_def)

lemma flights_follow_only:
  "flights st1 = flights st \<Longrightarrow> flights_follow st1 st' \<Longrightarrow> flights_follow st st'"
  by (simp add: flights_follow_def)

lemma flights_follow_resume:
  assumes "flush_resume cfg i ok st = Inr st'"
  shows "flights_follow st st'"
proof -
  have "\<exists>g \<in> set (flights st). continues f g" if "f \<in> set (flights st')" for f
  proof (cases "i < length (flights st) \<and> sent (flights st ! i) < length (logsToSend (flights st ! i))")
    case False
    with assms that show ?thesis by (auto simp: flush_resume_def continues_def)
  next
    case True
    let ?g = "flights st ! i"
    from True have gin: "?g \<in> set (flights st)" by simp
    from assms True have "flights st' = (flights st)[i := ?g\<lparr>sent := Suc (sent ?g)\<rparr>] \<or>
        flights st' = remove_nth i (flights st)"
      by (cases ok) (auto simp: flush_resume_def Let_def try_catch_def and_then_def await_push_def
          split: if_splits)
    then show ?thesis
    proof
      assume "flights st' = (flights st)[i := ?g\<lparr>sent := Suc (sent ?g)\<rparr>]"
      with that have "f = ?g\<lparr>sent := Suc (sent ?g)\<rparr> \<or> f \<in> set (flights st)"
        using set_update_subset_insert [of "flights st" i] by auto
      with gin show ?thesis by (auto simp: continues_def)
    next
      assume "flights st' = remove_nth i (flights st)"
      with that set_remove_nth [of i "flights st"] show ?thesis
        by (auto simp: continues_def)
    qed
  qed
  then show ?thesis by (simp add: flights_follow_def)
qed

lemma flights_follow_same: "flights st' = flights st \<Longrightarrow> flights_follow st st'"
  by (auto simp: flights_follow_def continues_def)

lemma sweep_loop_effect:
  assumes "sweep_loop cfg sw i c ss n st = Inr st'"
  shows "remote st' = remote st \<and> flights_follow st st'"
proof (cases "next_stale c ss")
  case None
  show ?thesis
  proof (cases "n > 0")
    case True
    with None assms have lg: "log cfg (sweep_log sw) INFO ''Logger'' ''Cleaned up old log sessions''
        [(''deletedSessions'', Num (int n)), (''cutoffDate'', IsoDate c)]
        (st\<lparr>sweeps := remove_nth i (sweeps st)\<rparr>) = Inr st'"
      by (simp add: sweep_loop_def Let_def)
    from flights_follow_log [OF lg] have "flights_follow st st'"
      by (rule flights_follow_only [rotated]) simp
    with log_effect [OF lg] show ?thesis by simp
  next
    case False
    with None assms show ?thesis
      by (auto simp: sweep_loop_def Let_def intro: flights_follow_same)
  qed
next
  case (Some q)
  with assms show ?thesis
    by (cases q) (auto simp: sweep_loop_def intro: flights_follow_same)
qed

lemma cleanup_resume_effect:
  assumes "cleanup_resume cfg i ok sw st = Inr st'"
  shows "set (remote st') \<subseteq> set (remote st) \<and> flights_follow st st'"
proof (cases "i < length (sweeps st) \<and> ok")
  case False
  with assms show ?thesis
    by (auto simp: cleanup_resume_def split: if_splits intro: flights_follow_same)
next
  case True
  show ?thesis
  proof (cases "sweeps st ! i")
    case (AwaitGet u)
    show ?thesis
    proof (cases "sessions_of u (remote st) = []")
      case True
      with \<open>i < length (sweeps st) \<and> ok\<close> AwaitGet assms show ?thesis
        by (auto simp: cleanup_resume_def intro: flights_follow_same)
    next
      case False
      with \<open>i < length (sweeps st) \<and> ok\<close> AwaitGet assms
      have "sweep_loop cfg sw i (sweep_now sw - LOG_RETENTION_MS) (sessions_of u (remote st)) 0 st = Inr st'"
        by (simp add: cleanup_resume_def Let_def)
      from sweep_loop_effect [OF this] show ?thesis by simp
    qed
  next
    case (AwaitRemove u sid rest c n)
    let ?st1 = "st\<lparr>remote := remove_session u sid (remote st)\<rparr>"
    from True AwaitRemove assms
    have "sweep_loop cfg sw i c rest (Suc n) ?st1 = Inr st'"
      by (simp add: cleanup_resume_def)
    from sweep_loop_effect [OF this] have "remote st' = remove_session u sid (remote st)"
      and "flights_follow ?st1 st'"
      by simp_all
    moreover from this(2) have "flights_follow st st'"
      by (rule flights_follow_only [rotated]) simp
    ultimately show ?thesis by (auto simp: remove_session_def)
  qed
qed

text \<open>
  C2 (as amended). In one event the remote store gains at most one record, and only when
  a push of a flush in flight resolves: the record is the entry that flush was sending,
  under the user id the flush captured when it took its snapshot and under the session
  id, whichever user is bound by now. A flush that starts captures the user bound at
  that moment, and a flush in flight keeps its target. Queued entries carry no owner.
\<close>

theorem remote_writes_follow_flight_target:
  assumes "step cfg ev st = Inr st'"
  shows "((\<exists>i. ev = PushSettled i True \<and> i < length (flights st) \<and>
              sent (flights st ! i) < length (logsToSend (flights st ! i)) \<and>
              remote st' = remote st @
                [(target (flights st ! i), SESSION_ID cfg, logsToSend (flights st ! i) ! sent (flights st ! i))])
          \<or> set (remote st') \<subseteq> set (remote st)) \<and>
         flights_follow st st'"
proof (cases ev)
  case (Emit io lv cat msg d)
  with assms have lg: "log cfg io lv cat msg d st = Inr st'" by simp
  from log_effect [OF lg] flights_follow_log [OF lg] show ?thesis by simp
next
  case (SetUserId io userId)
  with assms have lg: "log cfg io INFO ''Logger'' ''User ID set''
       [(''userId'', case userId of None \<Rightarrow> Null | Some u \<Rightarrow> Str u), (''sessionId'', Str (SESSION_ID cfg))]
       (st\<lparr>currentUserId := userId\<rparr>) = Inr st'"
    by (simp add: setUserId_def)
  from flights_follow_log [OF lg] have "flights_follow st st'"
    by (rule flights_follow_only [rotated]) simp
  with log_effect [OF lg] show ?thesis by simp
next
  case Flush
  with assms have "st' = flushLogBatch cfg st" by simp
  then show ?thesis
    by (auto simp: flushLogBatch_def Let_def flights_follow_def continues_def)
next
  case (PushSettled i ok)
  with assms have fr: "flush_resume cfg i ok st = Inr st'" by simp
  have ff: "flights_follow st st'" using fr by (rule flights_follow_resume)
  show ?thesis
  proof (cases "ok \<and> i < length (flights st) \<and> sent (flights st ! i) < length (logsToSend (flights st ! i))")
    case True
    with fr have "remote st' = remote st @
        [(target (flights st ! i), SESSION_ID cfg, logsToSend (flights st ! i) ! sent (flights st ! i))]"
      by (auto simp: flush_resume_def Let_def try_catch_def and_then_def await_push_def split: if_splits)
    with True PushSettled ff show ?thesis by auto
  next
    case False
    with fr have "remote st' = remote st"
      by (auto simp: flush_resume_def Let_def try_catch_def and_then_def await_push_def split: if_splits)
    with ff show ?thesis by simp
  qed
next
  case Cleanup
  with assms have "st' = cleanupOldFirebaseLogs cfg st" by simp
  then show ?thesis
    by (auto simp: cleanupOldFirebaseLogs_def intro: flights_follow_same)
next
  case (SweepSettled i ok sw)
  with assms cleanup_resume_effect show ?thesis by simp
qed

theorem remote_writes_follow_flight_target_witness:
  "step dev_cfg (PushSettled 0 True) stale_flight =
     Inr (stale_flight\<lparr>remote := [(''bob'', SESSION_ID dev_cfg, auth_warn)], flights := []\<rparr>) \<and>
   remote (stale_flight\<lparr>remote := [(''bob'', SESSION_ID dev_cfg, auth_warn)], flights := []\<rparr>) =
     remote stale_flight @ [(''bob'', SESSION_ID dev_cfg, auth_warn)] \<and>
   flights_follow stale_flight
     (stale_flight\<lparr>remote := [(''bob'', SESSION_ID dev_cfg, auth_warn)], flights := []\<rparr>)"
proof -
  have h: "step dev_cfg (PushSettled 0 True) stale_flight =
     Inr (stale_flight\<lparr>remote := [(''bob'', SESSION_ID dev_cfg, auth_warn)], flights := []\<rparr>)"
    by (simp add: stale_flight_def trace_eval)
  from remote_writes_follow_flight_target [OF h] show ?thesis
    using h by (simp add: stale_flight_def initial_def)
qed

text \<open>
  The claim as written fails: \<open>auth_warn\<close> is logged and queued while alice is bound
  (\<open>before_rebinding\<close>); bob is bound before the batch is flushed; the flush writes it
  under bob (\<open>after_rebinding\<close>).
\<close>

theorem rebinding_counterexample:
  "\<not> isl before_rebinding \<and>
   currentUserId (projr before_rebinding) = Some ''alice'' \<and>
   logBatch (projr before_rebinding) = [uid_set 1 ''alice'', auth_warn] \<and>
   \<not> isl after_rebinding \<and>
   remote (projr after_rebinding) =
     [(''bob'', SESSION_ID dev_cfg, uid_set 1 ''alice''),
      (''bob'', SESSION_ID dev_cfg, auth_warn),
      (''bob'', SESSION_ID dev_cfg, uid_set 3 ''bob'')]"
  by (simp add: before_rebinding_def after_rebinding_def trace_eval uid_set_def auth_warn_def
      make_entry_def)

text \<open>
  The sweep differs from the flush here: it builds the path of every \<open>remove\<close> from the
  user bound when that \<open>remove\<close> is issued. In \<open>after_rebound_sweep\<close> the snapshot is
  alice's, bob is bound while the \<open>get\<close> is pending, and the \<open>remove\<close> of alice's stale
  session \<open>s1\<close> goes to \<open>logs/bob/s1\<close>.
\<close>

lemma sweep_follows_rebinding:
  "\<not> isl after_rebound_sweep \<and>
   records_under ''alice'' ''s1'' (remote (projr after_rebound_sweep)) = [info_at 0] \<and>
   records_under ''bob'' ''s1'' (remote (projr after_rebound_sweep)) = []"
  by (simp add: after_rebound_sweep_def shared_session_store_def trace_eval
      cleanupOldFirebaseLogs_def cleanup_resume_def sweep_loop_def path_user_def
      sessions_of_def records_under_def remove_session_def oldestLog_def sweep_at_def
      LOG_RETENTION_MS_def LOG_RETENTION_DAYS_def info_at_def make_entry_def)

subsection \<open>Aggregation\<close>

lemma grouped_Nil: "grouped [] []"
  by (simp add: grouped_def)

lemma map_of_None_keys: "map_of gs k = None \<longleftrightarrow> k \<notin> fst ` set gs"
  by (simp add: map_of_eq_None_iff)

lemma grouped_step:
  assumes "grouped ls gs"
  shows "grouped (ls @ [l]) (add_issue gs l)"
proof -
  let ?k0 = "issue_key l"
  let ?g0 = "case map_of gs ?k0 of None \<Rightarrow> new_group l | Some g \<Rightarrow> g"
  have add: "add_issue gs l = AList.update ?k0 (bump_group l ?g0) gs"
    by (simp add: add_issue_def Let_def)
  have d: "distinct (map fst (add_issue gs l))"
    using assms by (simp add: add grouped_def distinct_update)
  have keys: "fst ` set (add_issue gs l) = issue_key ` set (ls @ [l])"
    using assms by (auto simp: add grouped_def dom_update)
  have g0: "count ?g0 = length (filter (\<lambda>l'. issue_key l' = ?k0) ls) \<and>
            affectedUsers ?g0 = userId ` {l' \<in> set ls. issue_key l' = ?k0} \<and>
            (\<exists>l' \<in> set (ls @ [l]). issue_key l' = ?k0 \<and> issue_category ?g0 = category l' \<and>
                issue_message ?g0 = message l')"
  proof (cases "map_of gs ?k0")
    case None
    then have "?k0 \<notin> issue_key ` set ls"
      using assms by (simp add: map_of_None_keys grouped_def)
    then have no: "issue_key l' \<noteq> ?k0" if "l' \<in> set ls" for l'
      using that by (metis imageI)
    then have "filter (\<lambda>l'. issue_key l' = ?k0) ls = []" "{l' \<in> set ls. issue_key l' = ?k0} = {}"
      by (simp_all add: filter_empty_conv)
    with None show ?thesis by (simp add: new_group_def)
  next
    case (Some g)
    with assms show ?thesis by (auto simp: grouped_def)
  qed
  have each: "count g = length (filter (\<lambda>l'. issue_key l' = k) (ls @ [l])) \<and>
        affectedUsers g = userId ` {l' \<in> set (ls @ [l]). issue_key l' = k} \<and>
        (\<exists>l' \<in> set (ls @ [l]). issue_key l' = k \<and> issue_category g = category l' \<and>
            issue_message g = message l')"
    if look: "map_of (add_issue gs l) k = Some g" for k g
  proof (cases "k = ?k0")
    case True
    with look have g: "g = bump_group l ?g0"
      by (simp add: add update_conv)
    have "{l' \<in> set (ls @ [l]). issue_key l' = ?k0} = insert l {l' \<in> set ls. issue_key l' = ?k0}"
      by auto
    with g0 show ?thesis
      unfolding g True by (simp add: bump_group_def)
  next
    case False
    with look have "map_of gs k = Some g"
      by (simp add: add update_conv)
    with assms have "count g = length (filter (\<lambda>l'. issue_key l' = k) ls)"
      "affectedUsers g = userId ` {l' \<in> set ls. issue_key l' = k}"
      "\<exists>l' \<in> set ls. issue_key l' = k \<and> issue_category g = category l' \<and> issue_message g = message l'"
      by (auto simp: grouped_def)
    moreover have "{l' \<in> set (ls @ [l]). issue_key l' = k} = {l' \<in> set ls. issue_key l' = k}"
      using False by auto
    ultimately show ?thesis using False by auto
  qed
  show ?thesis
    unfolding grouped_def using d keys each by blast
qed

lemma grouped_foldl: "grouped ls (foldl add_issue [] ls)"
  by (induction ls rule: rev_induct) (simp_all add: grouped_Nil grouped_step)

lemma count_with_size [simp]: "count (with_size g) = count g"
  by (simp add: with_size_def)

lemma only_element: "length xs = 1 \<Longrightarrow> x \<in> set xs \<Longrightarrow> xs = [x]"
  by (cases xs) auto

lemma sorted_pair:
  assumes "count b < count a"
  shows "sort_key (\<lambda>i. - int (count i)) [with_size a, with_size b] = [with_size a, with_size b]"
    and "sort_key (\<lambda>i. - int (count i)) [with_size b, with_size a] = [with_size a, with_size b]"
  using assms by simp_all

lemma commonIssues_eq:
  "commonIssues (analyzeeLogs logs) =
     take 10 (sort_key (\<lambda>i. - int (count i))
       (map (\<lambda>p. with_size (snd p))
         (foldl add_issue [] (filter (\<lambda>l. level l = ERROR \<or> level l = WARN) logs))))"
  by (simp add: analyzeeLogs_def Let_def)

lemma recentErrors_eq:
  "recentErrors (analyzeeLogs logs) = take 20 (filter (\<lambda>l. level l = ERROR) logs)"
  by (simp add: analyzeeLogs_def Let_def)

text \<open>
  C7. Let a window hold exactly four records: three at level \<open>warn\<close> with category
  \<open>Auth\<close> and message \<open>x\<close>, written by two distinct users, and one at level \<open>error\<close>
  with category \<open>Net\<close> and message \<open>y\<close>, in any order. Then the first of the common
  issues is the group (\<open>Auth\<close>, \<open>x\<close>) with count 3 and 2 affected users, and the
  (\<open>Net\<close>, \<open>y\<close>) record is among the recent errors.
\<close>

theorem auth_group_is_top_issue:
  assumes len: "length logs = 4"
    and three: "length (filter (\<lambda>l. category l = ''Auth'' \<and> message l = ''x'' \<and> level l = WARN) logs) = 3"
    and two: "card (userId ` {l \<in> set logs. category l = ''Auth'' \<and> message l = ''x'' \<and> level l = WARN}) = 2"
    and net: "net \<in> set logs" "category net = ''Net''" "message net = ''y''" "level net = ERROR"
  shows "\<exists>top rest. commonIssues (analyzeeLogs logs) = top # rest \<and>
           issue_category top = ''Auth'' \<and> issue_message top = ''x'' \<and>
           count top = 3 \<and> affectedUsers top = 2 \<and>
           net \<in> set (recentErrors (analyzeeLogs logs))"
proof -
  let ?A = "\<lambda>l::alog. category l = ''Auth'' \<and> message l = ''x'' \<and> level l = WARN"
  let ?kA = "''Auth:x''"
  let ?kN = "''Net:y''"
  have "length (filter (\<lambda>l. \<not> ?A l) logs) = 1"
    using len three sum_length_filter_compl [of ?A logs] by simp
  moreover have "net \<in> set (filter (\<lambda>l. \<not> ?A l) logs)"
    using net by simp
  ultimately have others: "filter (\<lambda>l. \<not> ?A l) logs = [net]"
    by (rule only_element)
  have split: "?A l \<or> l = net" if "l \<in> set logs" for l
  proof (rule ccontr)
    assume "\<not> (?A l \<or> l = net)"
    with that have "l \<in> set (filter (\<lambda>l. \<not> ?A l) logs)" "l \<noteq> net" by simp_all
    with others show False by simp
  qed
  have keyA: "issue_key l = ?kA \<longleftrightarrow> ?A l" if "l \<in> set logs" for l
    using split [OF that] net by (auto simp: issue_key_def)
  have keyN: "issue_key l = ?kN \<longleftrightarrow> \<not> ?A l" if "l \<in> set logs" for l
    using split [OF that] net by (auto simp: issue_key_def)
  have errN: "level l = ERROR \<longleftrightarrow> \<not> ?A l" if "l \<in> set logs" for l
    using split [OF that] net by auto
  have all_issues: "filter (\<lambda>l. level l = ERROR \<or> level l = WARN) logs = logs"
    using split net by (auto simp: filter_id_conv)
  have "filter (\<lambda>l. level l = ERROR) logs = filter (\<lambda>l. \<not> ?A l) logs"
    by (rule filter_cong [OF refl]) (rule errN)
  with others have errs: "filter (\<lambda>l. level l = ERROR) logs = [net]"
    by simp
  have fA: "filter (\<lambda>l. issue_key l = ?kA) logs = filter ?A logs"
    by (rule filter_cong [OF refl]) (rule keyA)
  have "filter (\<lambda>l. issue_key l = ?kN) logs = filter (\<lambda>l. \<not> ?A l) logs"
    by (rule filter_cong [OF refl]) (rule keyN)
  with others have fN: "filter (\<lambda>l. issue_key l = ?kN) logs = [net]"
    by simp
  have sA: "{l \<in> set logs. issue_key l = ?kA} = {l \<in> set logs. ?A l}"
    using keyA by blast
  have "\<exists>a \<in> set logs. ?A a"
  proof (rule ccontr)
    assume "\<not> (\<exists>a \<in> set logs. ?A a)"
    then have "filter ?A logs = []" by (simp add: filter_empty_conv)
    with three show False by simp
  qed
  then obtain a where a: "a \<in> set logs" "?A a" by blast
  let ?gs = "foldl add_issue [] logs"
  have G: "grouped logs ?gs" by (rule grouped_foldl)
  have keys: "fst ` set ?gs = {?kA, ?kN}"
  proof -
    have "issue_key ` set logs = {?kA, ?kN}"
    proof
      show "issue_key ` set logs \<subseteq> {?kA, ?kN}"
        using keyA keyN by blast
      have "issue_key a = ?kA" "issue_key net = ?kN"
        using a net by (simp_all add: issue_key_def)
      with a(1) net(1) show "{?kA, ?kN} \<subseteq> issue_key ` set logs"
        by (metis imageI insert_subset empty_subsetI)
    qed
    with G show ?thesis by (simp add: grouped_def)
  qed
  have dist: "distinct (map fst ?gs)" using G by (simp add: grouped_def)
  have "length ?gs = card (fst ` set ?gs)"
    using dist by (metis distinct_card length_map set_map)
  with keys have "length ?gs = 2" by simp
  then obtain p q where pq: "?gs = [p, q]"
    by (cases ?gs; cases "tl ?gs") auto
  have facts: "count g = length (filter (\<lambda>l. issue_key l = k) logs) \<and>
        affectedUsers g = userId ` {l \<in> set logs. issue_key l = k} \<and>
        (\<exists>l \<in> set logs. issue_key l = k \<and> issue_category g = category l \<and> issue_message g = message l)"
    if "map_of ?gs k = Some g" for k g
    using G that unfolding grouped_def by blast
  have top: "count gA = 3 \<and> card (affectedUsers gA) = 2 \<and> issue_category gA = ''Auth'' \<and> issue_message gA = ''x''"
    if "map_of ?gs ?kA = Some gA" for gA
    using facts [OF that] keyA three two by (auto simp: fA sA)
  have low: "count gN = 1" if "map_of ?gs ?kN = Some gN" for gN
    using facts [OF that] by (simp add: fN)
  have "{fst p, fst q} = {?kA, ?kN}"
    using keys unfolding pq by simp
  then have "fst p = ?kA \<and> fst q = ?kN \<or> fst p = ?kN \<and> fst q = ?kA"
    by (simp add: doubleton_eq_iff)
  then have "\<exists>gA gN. map_of ?gs ?kA = Some gA \<and> map_of ?gs ?kN = Some gN \<and>
      (map (\<lambda>p. with_size (snd p)) ?gs = [with_size gA, with_size gN] \<or>
       map (\<lambda>p. with_size (snd p)) ?gs = [with_size gN, with_size gA])"
  proof
    assume "fst p = ?kA \<and> fst q = ?kN"
    then have "map_of [p, q] ?kA = Some (snd p)" "map_of [p, q] ?kN = Some (snd q)"
      by (cases p; cases q; simp)+
    then show ?thesis unfolding pq by simp
  next
    assume "fst p = ?kN \<and> fst q = ?kA"
    then have "map_of [p, q] ?kA = Some (snd q)" "map_of [p, q] ?kN = Some (snd p)"
      by (cases p; cases q; simp)+
    then show ?thesis unfolding pq by simp
  qed
  then obtain gA gN where look: "map_of ?gs ?kA = Some gA" "map_of ?gs ?kN = Some gN"
    and order: "map (\<lambda>p. with_size (snd p)) ?gs = [with_size gA, with_size gN] \<or>
                map (\<lambda>p. with_size (snd p)) ?gs = [with_size gN, with_size gA]"
    by (elim exE conjE)
  have lt: "count gN < count gA" using top [OF look(1)] low [OF look(2)] by simp
  from order have "sort_key (\<lambda>i. - int (count i)) (map (\<lambda>p. with_size (snd p)) ?gs)
      = [with_size gA, with_size gN]"
  proof
    assume e: "map (\<lambda>p. with_size (snd p)) ?gs = [with_size gA, with_size gN]"
    show ?thesis unfolding e by (rule sorted_pair(1) [OF lt])
  next
    assume e: "map (\<lambda>p. with_size (snd p)) ?gs = [with_size gN, with_size gA]"
    show ?thesis unfolding e by (rule sorted_pair(2) [OF lt])
  qed
  then have "commonIssues (analyzeeLogs logs) = [with_size gA, with_size gN]"
    by (simp add: commonIssues_eq all_issues)
  moreover have "net \<in> set (recentErrors (analyzeeLogs logs))"
    by (simp add: recentErrors_eq errs)
  ultimately show ?thesis
    using top [OF look(1)] by (simp add: with_size_def)
qed

theorem auth_group_is_top_issue_witness:
  "length window = 4 \<and>
   length (filter (\<lambda>l. category l = ''Auth'' \<and> message l = ''x'' \<and> level l = WARN) window) = 3 \<and>
   card (userId ` {l \<in> set window. category l = ''Auth'' \<and> message l = ''x'' \<and> level l = WARN}) = 2 \<and>
   (\<exists>top rest. commonIssues (analyzeeLogs window) = top # rest \<and>
      issue_category top = ''Auth'' \<and> issue_message top = ''x'' \<and>
      count top = 3 \<and> affectedUsers top = 2 \<and>
      remote_rec ''u2'' 3 ERROR ''Net'' ''y'' \<in> set (recentErrors (analyzeeLogs window)))"
proof -
  let ?A = "\<lambda>l::alog. category l = ''Auth'' \<and> message l = ''x'' \<and> level l = WARN"
  let ?net = "remote_rec ''u2'' 3 ERROR ''Net'' ''y''"
  have h1: "length window = 4" and h2: "length (filter ?A window) = 3"
    by (simp_all add: window_def remote_rec_def)
  have "{l \<in> set window. ?A l} = set (filter ?A window)" by simp
  also have "filter ?A window = [remote_rec ''u1'' 4 WARN ''Auth'' ''x'',
      remote_rec ''u2'' 2 WARN ''Auth'' ''x'', remote_rec ''u1'' 1 WARN ''Auth'' ''x'']"
    by (simp add: window_def remote_rec_def)
  finally have eq: "{l \<in> set window. ?A l} = set [remote_rec ''u1'' 4 WARN ''Auth'' ''x'',
      remote_rec ''u2'' 2 WARN ''Auth'' ''x'', remote_rec ''u1'' 1 WARN ''Auth'' ''x'']" .
  have "userId ` set [remote_rec ''u1'' 4 WARN ''Auth'' ''x'',
      remote_rec ''u2'' 2 WARN ''Auth'' ''x'', remote_rec ''u1'' 1 WARN ''Auth'' ''x''] = {''u1'', ''u2''}"
    by (auto simp: remote_rec_def)
  then have h3: "card (userId ` {l \<in> set window. ?A l}) = 2"
    unfolding eq by simp
  have h4: "?net \<in> set window" "category ?net = ''Net''" "message ?net = ''y''" "level ?net = ERROR"
    by (simp_all add: window_def remote_rec_def)
  from auth_group_is_top_issue [OF h1 h2 h3 h4] show ?thesis
    using h1 h2 h3 by blast
qed

lemma stats_counters:
  "authIssues (stats (analyzeeLogs logs)) =
     length (filter (\<lambda>l. category l = ''Auth'' \<and> (level l = ERROR \<or> level l = WARN)) logs)"
  "networkIssues (stats (analyzeeLogs logs)) =
     length (filter (\<lambda>l. category l = ''Network'' \<and> (level l = ERROR \<or> level l = WARN)) logs)"
  "syncIssues (stats (analyzeeLogs logs)) =
     length (filter (\<lambda>l. (category l = ''Sync'' \<or> category l = ''Firebase'') \<and>
                           (level l = ERROR \<or> level l = WARN)) logs)"
  by (simp_all add: analyzeeLogs_def Let_def)

lemma two_names_count:
  assumes "c1 \<noteq> c2"
  shows "length (filter (\<lambda>l::alog. (category l = c1 \<or> category l = c2) \<and> (level l = ERROR \<or> level l = WARN)) logs)
       = issues_with_category c1 logs + issues_with_category c2 logs"
  using assms by (induction logs) (auto simp: issues_with_category_def)

text \<open>
  C8 (as amended). The authentication counter is the number of \<open>warn\<close> or \<open>error\<close>
  records whose category is exactly \<open>Auth\<close>, the network counter the number of those
  whose category is exactly \<open>Network\<close>, and the synchronization counter the number of
  those whose category is exactly \<open>Sync\<close> or exactly \<open>Firebase\<close>.
\<close>

theorem category_counters:
  "authIssues (stats (analyzeeLogs logs)) = issues_with_category ''Auth'' logs \<and>
   networkIssues (stats (analyzeeLogs logs)) = issues_with_category ''Network'' logs \<and>
   syncIssues (stats (analyzeeLogs logs)) =
     issues_with_category ''Sync'' logs + issues_with_category ''Firebase'' logs"
proof -
  have "(\<lambda>l::alog. category l = c \<and> (level l = ERROR \<or> level l = WARN)) =
        (\<lambda>l. category l = c \<and> (level l = WARN \<or> level l = ERROR))" for c
    by auto
  then have "authIssues (stats (analyzeeLogs logs)) = issues_with_category ''Auth'' logs"
    "networkIssues (stats (analyzeeLogs logs)) = issues_with_category ''Network'' logs"
    by (simp_all add: stats_counters issues_with_category_def)
  moreover have "syncIssues (stats (analyzeeLogs logs)) =
     issues_with_category ''Sync'' logs + issues_with_category ''Firebase'' logs"
    by (simp add: stats_counters two_names_count)
  ultimately show ?thesis by simp
qed

theorem category_counters_witness:
  "authIssues (stats (analyzeeLogs sync_pair)) = 0 \<and>
   networkIssues (stats (analyzeeLogs sync_pair)) = 0 \<and>
   syncIssues (stats (analyzeeLogs sync_pair)) = 2"
  using category_counters [of sync_pair]
  by (simp add: issues_with_category_def sync_pair_def remote_rec_def)

text \<open>
  The claim as written gives every counter a single category name. The synchronization
  counter counts two records whose categories differ.
\<close>

theorem sync_counter_counterexample:
  "syncIssues (stats (analyzeeLogs sync_pair)) = 2 \<and>
   issues_with_category ''Sync'' sync_pair = 1 \<and>
   issues_with_category ''Firebase'' sync_pair = 1 \<and>
   category (sync_pair ! 0) = ''Sync'' \<and> category (sync_pair ! 1) = ''Firebase''"
  by (simp add: stats_counters issues_with_category_def sync_pair_def remote_rec_def)

subsection \<open>The copy handed out by getBufferedLogs\<close>

text \<open>
  C10. \<open>getBufferedLogs\<close> returns a newly allocated array, different from the internal
  buffer, with the same elements. Whatever the caller then does to the returned array,
  the internal buffer keeps its elements, the store still holds the ring buffer of the
  same pipeline state, and the next call of \<open>getBufferedLogs\<close> returns yet another array
  with the same elements.
\<close>

theorem getBufferedLogs_returns_copy:
  assumes "heap_ok h" "arrays h logBuffer_ref = Some refs"
  shows "\<exists>a h1. getBufferedLogs h = Some (a, h1) \<and>
           a \<noteq> logBuffer_ref \<and> arrays h a = None \<and> arrays h1 a = Some refs \<and>
           arrays h1 logBuffer_ref = Some refs \<and>
           (\<forall>f. arrays (array_mutate a f h1) logBuffer_ref = Some refs \<and>
                objects (array_mutate a f h1) = objects h \<and>
                (represents h st \<longrightarrow> represents (array_mutate a f h1) st) \<and>
                (\<exists>b h2. getBufferedLogs (array_mutate a f h1) = Some (b, h2) \<and>
                        b \<noteq> a \<and> arrays h2 b = Some refs))"
proof -
  let ?a = "next_ref h"
  let ?h1 = "h\<lparr>arrays := (arrays h)(?a \<mapsto> refs), next_ref := Suc ?a\<rparr>"
  have fresh: "arrays h ?a = None"
    using assms(1) by (auto simp: heap_ok_def)
  have ne: "?a \<noteq> logBuffer_ref"
    using assms(2) fresh by auto
  have g: "getBufferedLogs h = Some (?a, ?h1)"
    using assms(2) by (simp add: getBufferedLogs_def)
  have later: "arrays (array_mutate ?a f ?h1) logBuffer_ref = Some refs \<and>
        objects (array_mutate ?a f ?h1) = objects h \<and>
        (represents h st \<longrightarrow> represents (array_mutate ?a f ?h1) st) \<and>
        (\<exists>b h2. getBufferedLogs (array_mutate ?a f ?h1) = Some (b, h2) \<and> b \<noteq> ?a \<and> arrays h2 b = Some refs)" for f
    using assms(2) ne by (simp add: array_mutate_def getBufferedLogs_def represents_def)
  from g ne fresh assms(2) later show ?thesis
    by (intro exI [of _ ?a] exI [of _ ?h1]) (simp add: ne)
qed

theorem getBufferedLogs_returns_copy_witness:
  "heap_ok heap0 \<and> arrays heap0 logBuffer_ref = Some [10, 11] \<and>
   (\<exists>h1. getBufferedLogs heap0 = Some (12, h1) \<and>
      arrays (array_mutate 12 (\<lambda>xs. []) h1) logBuffer_ref = Some [10, 11] \<and>
      (\<exists>b h2. getBufferedLogs (array_mutate 12 (\<lambda>xs. []) h1) = Some (b, h2) \<and> arrays h2 b = Some [10, 11]))"
proof -
  have h: "heap_ok heap0" "arrays heap0 logBuffer_ref = Some [10, 11]"
    by (simp_all add: heap_ok_def heap0_def logBuffer_ref_def)
  from getBufferedLogs_returns_copy [OF h] obtain a h1 where
    g: "getBufferedLogs heap0 = Some (a, h1)" and
    m: "\<And>f. arrays (array_mutate a f h1) logBuffer_ref = Some [10, 11] \<and>
          (\<exists>b h2. getBufferedLogs (array_mutate a f h1) = Some (b, h2) \<and> b \<noteq> a \<and> arrays h2 b = Some [10, 11])"
    by blast
  from g have "a = 12"
    by (simp add: getBufferedLogs_def heap0_def logBuffer_ref_def)
  with g m [of "\<lambda>xs. []"] h show ?thesis by blast
qed

end
